theory Spec2Isabelle
  imports Main "HOL-Library.Word"
begin

section \<open>The User table\<close>

text \<open>
  The Prisma model \<^verbatim>\<open>User\<close> (README, "Database Schema"):
  \<^verbatim>\<open>id String @id @default(cuid())\<close>, \<^verbatim>\<open>email String @unique\<close>, \<^verbatim>\<open>name String?\<close>,
  \<^verbatim>\<open>verified Boolean @default(false)\<close>, \<^verbatim>\<open>magicLinkToken String? @unique\<close>,
  \<^verbatim>\<open>magicLinkExpires DateTime?\<close>, \<^verbatim>\<open>magicLinkUsed Boolean @default(false)\<close>,
  \<^verbatim>\<open>createdAt DateTime @default(now())\<close>, \<^verbatim>\<open>updatedAt DateTime @updatedAt\<close>.
  A \<^verbatim>\<open>DateTime\<close> is the number of milliseconds since the epoch, as \<^verbatim>\<open>Date.now()\<close>
  counts them. The field \<^verbatim>\<open>id\<close> is written \<open>id_u\<close>: \<open>id\<close> is the identity function of HOL.
  The table is the list of its rows, in insertion order.
\<close>

record user =
  id_u :: string
  email :: string
  name :: "string option"
  verified :: bool
  magicLinkToken :: "string option"
  magicLinkExpires :: "int option"
  magicLinkUsed :: bool
  createdAt :: int
  updatedAt :: int

subsection \<open>What a request carries\<close>

text \<open>
  \<^verbatim>\<open>express.json()\<close> hands the handlers whatever JSON value the body holds under
  \<^verbatim>\<open>email\<close>; the field can also be absent. (Of a number the handlers only ask whether
  it is zero.)
\<close>

datatype json =
    JNull
  | JBool bool
  | JNum int
  | JStr string
  | JArr "json list"
  | JObj "(string \<times> json) list"

text \<open>
  \<^verbatim>\<open>req.query.token\<close>, as the query parser of Express 4 builds it: a string for
  \<^verbatim>\<open>?token=abc\<close>, an array for a repeated parameter, an object for bracketed keys
  (\<^verbatim>\<open>?token[not]=zzz\<close> gives \<^verbatim>\<open>{ not: 'zzz' }\<close>).
\<close>

datatype qvalue =
    QStr string
  | QArr "qvalue list"
  | QObj "(string \<times> qvalue) list"

text \<open>
  What a request reads from outside the program: the clock (\<^verbatim>\<open>Date.now()\<close>,
  \<^verbatim>\<open>new Date()\<close>, and the timestamps Prisma writes; one request reads one instant),
  the bytes \<^verbatim>\<open>crypto.randomBytes\<close> draws, the \<^verbatim>\<open>cuid()\<close> Prisma gives a created row,
  and whether \<^verbatim>\<open>transporter.sendMail\<close> resolves or rejects. The last field is what
  the Prisma client makes of a \<^verbatim>\<open>where\<close> value for \<^verbatim>\<open>magicLinkToken\<close> that is neither a
  string nor \<^verbatim>\<open>{ equals: s }\<close> nor \<^verbatim>\<open>{ not: s }\<close>: a validation error (\<open>None\<close>) or a
  condition on the column. Nothing is assumed about it.
\<close>

record env =
  now :: int
  rnd :: "nat \<Rightarrow> 8 word"
  cuid :: string
  mailOk :: bool
  prismaWhere :: "qvalue \<Rightarrow> (string option \<Rightarrow> bool) option"

text \<open>\<^verbatim>\<open>process.env.PORT\<close>, as the template literal of the link prints it.\<close>

record config =
  PORT :: string

subsection \<open>Tokens: \<^verbatim>\<open>crypto.randomBytes(32).toString('hex')\<close>\<close>

definition randomBytes :: "env \<Rightarrow> nat \<Rightarrow> 8 word list" where
  "randomBytes ev n = map (rnd ev) [0..<n]"

definition hexDigit :: "nat \<Rightarrow> char" where
  "hexDigit d = ''0123456789abcdef'' ! d"

definition hexByte :: "8 word \<Rightarrow> string" where
  "hexByte b = [hexDigit (unat b div 16), hexDigit (unat b mod 16)]"

definition toString_hex :: "8 word list \<Rightarrow> string" where
  "toString_hex bs = concat (map hexByte bs)"

definition newToken :: "env \<Rightarrow> string" where
  "newToken ev = toString_hex (randomBytes ev 32)"

text \<open>\<^verbatim>\<open>new Date(Date.now() + 15 * 60 * 1000)\<close>\<close>

definition newExpiry :: "env \<Rightarrow> int" where
  "newExpiry ev = now ev + 15 * 60 * 1000"

subsection \<open>The Prisma calls the handlers make\<close>

text \<open>
  A write that would break a unique index of the table (\<^verbatim>\<open>@id\<close> on \<^verbatim>\<open>id\<close>,
  \<^verbatim>\<open>@unique\<close> on \<^verbatim>\<open>email\<close> and on \<^verbatim>\<open>magicLinkToken\<close>, where SQL lets any number of
  rows hold NULL) is rejected and the call throws; so does \<^verbatim>\<open>update\<close> when no row
  matches. Every handler catches what is thrown and answers 500.
\<close>

datatype prisma_error = RecordNotFound | UniqueConstraintFailed

fun tokens :: "user list \<Rightarrow> string list" where
  "tokens [] = []"
| "tokens (u # us) =
     (case magicLinkToken u of None \<Rightarrow> tokens us | Some t \<Rightarrow> t # tokens us)"

definition unique_ok :: "user list \<Rightarrow> bool" where
  "unique_ok st \<longleftrightarrow>
     distinct (map id_u st) \<and> distinct (map email st) \<and> distinct (tokens st)"

definition findUnique_email :: "user list \<Rightarrow> string \<Rightarrow> user option" where
  "findUnique_email st e = find (\<lambda>u. email u = e) st"

definition findFirst :: "(user \<Rightarrow> bool) \<Rightarrow> user list \<Rightarrow> user option" where
  "findFirst wh st = find wh st"

fun update_first :: "(user \<Rightarrow> bool) \<Rightarrow> (user \<Rightarrow> user) \<Rightarrow> user list \<Rightarrow> user list" where
  "update_first wh f [] = []"
| "update_first wh f (u # us) = (if wh u then f u # us else u # update_first wh f us)"

text \<open>\<^verbatim>\<open>prisma.user.update({ where, data })\<close>: the row the unique \<^verbatim>\<open>where\<close> selects is
  written, \<^verbatim>\<open>updatedAt\<close> is set, and the written row is returned.\<close>

definition prisma_update ::
  "env \<Rightarrow> (user \<Rightarrow> bool) \<Rightarrow> (user \<Rightarrow> user) \<Rightarrow> user list \<Rightarrow> prisma_error + (user list \<times> user)"
where
  "prisma_update ev wh dat st =
     (case find wh st of
        None \<Rightarrow> Inl RecordNotFound
      | Some u \<Rightarrow>
          let st' = update_first wh (\<lambda>x. (dat x)\<lparr>updatedAt := now ev\<rparr>) st
          in if unique_ok st' then Inr (st', (dat u)\<lparr>updatedAt := now ev\<rparr>)
             else Inl UniqueConstraintFailed)"

text \<open>\<^verbatim>\<open>prisma.user.create({ data })\<close>: the defaults of the schema fill the fields the
  handler does not give.\<close>

definition prisma_create ::
  "env \<Rightarrow> string \<Rightarrow> string option \<Rightarrow> string \<Rightarrow> int \<Rightarrow> user list \<Rightarrow> prisma_error + (user list \<times> user)"
where
  "prisma_create ev e nm tok ex st =
     (let u = \<lparr>id_u = cuid ev, email = e, name = nm, verified = False,
                magicLinkToken = Some tok, magicLinkExpires = Some ex,
                magicLinkUsed = False, createdAt = now ev, updatedAt = now ev\<rparr>;
          st' = st @ [u]
      in if unique_ok st' then Inr (st', u) else Inl UniqueConstraintFailed)"

text \<open>\<^verbatim>\<open>prisma.user.updateMany({ where, data })\<close>: every matching row is written; the
  call returns how many.\<close>

definition prisma_updateMany ::
  "env \<Rightarrow> (user \<Rightarrow> bool) \<Rightarrow> (user \<Rightarrow> user) \<Rightarrow> user list \<Rightarrow> user list \<times> nat"
where
  "prisma_updateMany ev wh dat st =
     (map (\<lambda>u. if wh u then (dat u)\<lparr>updatedAt := now ev\<rparr> else u) st,
      length (filter wh st))"

section \<open>Responses and the notifier\<close>

datatype payload =
    Account string "string option"
  | Profile string string "string option" bool

text \<open>The payload \<^verbatim>\<open>jwt.sign\<close> signs for the cookie \<^verbatim>\<open>auth_token\<close>; the signature
  itself is not modelled.\<close>

record jwt_payload =
  userId :: string
  jwt_email :: string
  jwt_verified :: bool

record response =
  status :: nat
  success :: bool
  message :: string
  data :: "payload option"
  auth_token :: "jwt_payload option"

definition reply :: "nat \<Rightarrow> bool \<Rightarrow> string \<Rightarrow> payload option \<Rightarrow> response" where
  "reply s ok m d = \<lparr>status = s, success = ok, message = m, data = d, auth_token = None\<rparr>"

record mailOptions =
  mail_to :: string
  subject :: string
  mail_text :: string

definition magicLinkUrl :: "config \<Rightarrow> string \<Rightarrow> string" where
  "magicLinkUrl cfg tok = ''http://localhost:'' @ PORT cfg @ ''/?token='' @ tok"

definition greeting :: "string option \<Rightarrow> string" where
  "greeting nm = (case nm of None \<Rightarrow> [] | Some n \<Rightarrow> if n = [] then [] else CHR '' '' # n)"

definition buildMail :: "string \<Rightarrow> string option \<Rightarrow> string \<Rightarrow> mailOptions" where
  "buildMail e nm url =
     \<lparr>mail_to = e, subject = ''Your Login Link'',
      mail_text = ''Hi'' @ greeting nm @ ''!'' @ [CHR 0x0A, CHR 0x0A]
        @ ''Click this link to log in: '' @ url @ [CHR 0x0A, CHR 0x0A]
        @ ''This link expires in 15 minutes.'' @ [CHR 0x0A, CHR 0x0A]
        @ ''If you didn'' @ [CHR 0x27] @ ''t request this, please ignore this email.''\<rparr>"

text \<open>\<^verbatim>\<open>sendMagicLinkEmail\<close>: the mail handed to the transporter, and whether the call
  returned (\<open>True\<close>) or threw \<^verbatim>\<open>Failed to send email\<close>.\<close>

definition sendMagicLinkEmail :: "env \<Rightarrow> string \<Rightarrow> string option \<Rightarrow> string \<Rightarrow> mailOptions list \<times> bool" where
  "sendMagicLinkEmail ev e nm url = ([buildMail e nm url], mailOk ev)"

text \<open>What a handler leaves behind: the table, the response, the mails handed to the
  transporter.\<close>

record result =
  store :: "user list"
  response :: response
  sent :: "mailOptions list"

section \<open>The handlers\<close>

text \<open>\<^verbatim>\<open>name || user.name\<close>, for a name that is absent or a string: the empty string is
  falsy.\<close>

definition or_else :: "string option \<Rightarrow> string option \<Rightarrow> string option" where
  "or_else a b = (case a of None \<Rightarrow> b | Some n \<Rightarrow> if n = [] then b else Some n)"

text \<open>
  \<^verbatim>\<open>!email\<close>: absent, \<^verbatim>\<open>null\<close>, \<^verbatim>\<open>false\<close>, \<^verbatim>\<open>0\<close> and the empty string are falsy; arrays and
  objects are not.
\<close>

definition falsy :: "json option \<Rightarrow> bool" where
  "falsy em =
     (case em of
        None \<Rightarrow> True
      | Some JNull \<Rightarrow> True
      | Some (JBool b) \<Rightarrow> \<not> b
      | Some (JNum n) \<Rightarrow> n = 0
      | Some (JStr s) \<Rightarrow> s = []
      | Some (JArr xs) \<Rightarrow> False
      | Some (JObj kvs) \<Rightarrow> False)"

datatype js_error = TypeError

text \<open>
  \<^verbatim>\<open>email.includes('@')\<close>: a substring test on a string, a membership test on an array;
  on a boolean, a number or an object \<^verbatim>\<open>includes\<close> is not a function and the call throws.
\<close>

definition includes_at :: "json \<Rightarrow> js_error + bool" where
  "includes_at v =
     (case v of
        JStr s \<Rightarrow> Inr (CHR ''@'' \<in> set s)
      | JArr xs \<Rightarrow> Inr (JStr ''@'' \<in> set xs)
      | _ \<Rightarrow> Inl TypeError)"

text \<open>\<^verbatim>\<open>!email || !email.includes('@')\<close>: true, false, or thrown.\<close>

definition email_check :: "json option \<Rightarrow> js_error + bool" where
  "email_check em =
     (if falsy em then Inr True
      else case em of
             None \<Rightarrow> Inr True
           | Some v \<Rightarrow> (case includes_at v of Inl err \<Rightarrow> Inl err | Inr b \<Rightarrow> Inr (\<not> b)))"

text \<open>The requests the check answers with 400.\<close>

definition invalid_email :: "json option \<Rightarrow> bool" where
  "invalid_email em \<longleftrightarrow> email_check em = Inr True"

definition issue_data :: "string \<Rightarrow> int \<Rightarrow> user \<Rightarrow> user" where
  "issue_data tok ex u =
     u\<lparr>magicLinkToken := Some tok, magicLinkExpires := Some ex, magicLinkUsed := False\<rparr>"

text \<open>
  \<^verbatim>\<open>POST /api/auth/signup\<close>. \<open>signup_valid\<close> is the handler from \<^verbatim>\<open>findUnique\<close> on, for
  an email that is a string; \<open>signup\<close> is the whole handler. A thrown \<^verbatim>\<open>TypeError\<close> and
  the validation error of \<^verbatim>\<open>findUnique\<close> for a \<^verbatim>\<open>where\<close> value that is not a string
  both end in the \<^verbatim>\<open>catch\<close>.
\<close>

definition signup_valid :: "config \<Rightarrow> env \<Rightarrow> user list \<Rightarrow> string \<Rightarrow> string option \<Rightarrow> result" where
  "signup_valid cfg ev st e nm =
     (let found = findUnique_email st e in
      if (case found of None \<Rightarrow> False | Some u \<Rightarrow> verified u) then
        \<lparr>store = st, response = reply 409 False ''Account already exists and verified'' None,
         sent = []\<rparr>
      else
        let tok = newToken ev; ex = newExpiry ev;
            written =
              (case found of
                 Some u \<Rightarrow>
                   prisma_update ev (\<lambda>x. email x = e)
                     (\<lambda>x. (issue_data tok ex x)\<lparr>name := or_else nm (name u)\<rparr>) st
               | None \<Rightarrow> prisma_create ev e nm tok ex st)
        in (case written of
             Inl err \<Rightarrow>
               \<lparr>store = st,
                response = reply 500 False ''Failed to create account. Please try again.'' None,
                sent = []\<rparr>
           | Inr (st', u') \<Rightarrow>
               let (mails, ok) = sendMagicLinkEmail ev e nm (magicLinkUrl cfg tok) in
               if ok then
                 \<lparr>store = st',
                  response = reply 200 True
                    ''Verification link sent to your email! Check your inbox.''
                    (Some (Account (email u') (name u'))),
                  sent = mails\<rparr>
               else
                 \<lparr>store = st',
                  response = reply 500 False ''Failed to create account. Please try again.'' None,
                  sent = mails\<rparr>))"

definition signup :: "config \<Rightarrow> env \<Rightarrow> user list \<Rightarrow> json option \<Rightarrow> string option \<Rightarrow> result" where
  "signup cfg ev st em nm =
     (case email_check em of
        Inl err \<Rightarrow>
          \<lparr>store = st,
           response = reply 500 False ''Failed to create account. Please try again.'' None,
           sent = []\<rparr>
      | Inr bad \<Rightarrow>
          if bad then
            \<lparr>store = st, response = reply 400 False ''Valid email is required'' None, sent = []\<rparr>
          else
            (case em of
               Some (JStr e) \<Rightarrow> signup_valid cfg ev st e nm
             | _ \<Rightarrow>
                 \<lparr>store = st,
                  response = reply 500 False ''Failed to create account. Please try again.'' None,
                  sent = []\<rparr>))"

text \<open>\<^verbatim>\<open>POST /api/auth/login\<close>, split in the same way.\<close>

definition login_valid :: "config \<Rightarrow> env \<Rightarrow> user list \<Rightarrow> string \<Rightarrow> result" where
  "login_valid cfg ev st e =
     (case findUnique_email st e of
      None \<Rightarrow>
        \<lparr>store = st,
         response = reply 404 False ''No verified account found with this email'' None,
         sent = []\<rparr>
    | Some u \<Rightarrow>
        if \<not> verified u then
          \<lparr>store = st,
           response = reply 404 False ''No verified account found with this email'' None,
           sent = []\<rparr>
        else
          let tok = newToken ev; ex = newExpiry ev in
          (case prisma_update ev (\<lambda>x. email x = e) (issue_data tok ex) st of
            Inl err \<Rightarrow>
              \<lparr>store = st,
               response = reply 500 False ''Failed to send login link. Please try again.'' None,
               sent = []\<rparr>
          | Inr (st', u') \<Rightarrow>
              let (mails, ok) = sendMagicLinkEmail ev e (name u) (magicLinkUrl cfg tok) in
              if ok then
                \<lparr>store = st',
                 response = reply 200 True
                   ''Login link sent to your email! Check your inbox.''
                   (Some (Account (email u) (name u))),
                 sent = mails\<rparr>
              else
                \<lparr>store = st',
                 response = reply 500 False ''Failed to send login link. Please try again.'' None,
                 sent = mails\<rparr>))"

definition login :: "config \<Rightarrow> env \<Rightarrow> user list \<Rightarrow> json option \<Rightarrow> result" where
  "login cfg ev st em =
     (case email_check em of
        Inl err \<Rightarrow>
          \<lparr>store = st,
           response = reply 500 False ''Failed to send login link. Please try again.'' None,
           sent = []\<rparr>
      | Inr bad \<Rightarrow>
          if bad then
            \<lparr>store = st, response = reply 400 False ''Valid email is required'' None, sent = []\<rparr>
          else
            (case em of
               Some (JStr e) \<Rightarrow> login_valid cfg ev st e
             | _ \<Rightarrow>
                 \<lparr>store = st,
                  response = reply 500 False ''Failed to send login link. Please try again.'' None,
                  sent = []\<rparr>))"

text \<open>\<^verbatim>\<open>POST /api/auth/resend-verification\<close>, split in the same way.\<close>

definition resend_valid :: "config \<Rightarrow> env \<Rightarrow> user list \<Rightarrow> string \<Rightarrow> result" where
  "resend_valid cfg ev st e =
     (case findUnique_email st e of
      None \<Rightarrow>
        \<lparr>store = st, response = reply 404 False ''No account found with this email'' None,
         sent = []\<rparr>
    | Some u \<Rightarrow>
        if verified u then
          \<lparr>store = st, response = reply 400 False ''Account is already verified'' None,
           sent = []\<rparr>
        else
          let tok = newToken ev; ex = newExpiry ev in
          (case prisma_update ev (\<lambda>x. email x = e) (issue_data tok ex) st of
            Inl err \<Rightarrow>
              \<lparr>store = st,
               response = reply 500 False
                 ''Failed to send verification link. Please try again.'' None,
               sent = []\<rparr>
          | Inr (st', u') \<Rightarrow>
              let (mails, ok) = sendMagicLinkEmail ev e (name u) (magicLinkUrl cfg tok) in
              if ok then
                \<lparr>store = st',
                 response = reply 200 True ''New verification link sent to your email!''
                   (Some (Account (email u) (name u))),
                 sent = mails\<rparr>
              else
                \<lparr>store = st',
                 response = reply 500 False
                   ''Failed to send verification link. Please try again.'' None,
                 sent = mails\<rparr>))"

definition resend :: "config \<Rightarrow> env \<Rightarrow> user list \<Rightarrow> json option \<Rightarrow> result" where
  "resend cfg ev st em =
     (case email_check em of
        Inl err \<Rightarrow>
          \<lparr>store = st,
           response = reply 500 False ''Failed to send verification link. Please try again.'' None,
           sent = []\<rparr>
      | Inr bad \<Rightarrow>
          if bad then
            \<lparr>store = st, response = reply 400 False ''Valid email is required'' None, sent = []\<rparr>
          else
            (case em of
               Some (JStr e) \<Rightarrow> resend_valid cfg ev st e
             | _ \<Rightarrow>
                 \<lparr>store = st,
                  response = reply 500 False
                    ''Failed to send verification link. Please try again.'' None,
                  sent = []\<rparr>))"

text \<open>
  \<^verbatim>\<open>GET /api/auth/verify\<close>. The handler awaits two Prisma calls: \<^verbatim>\<open>findFirst\<close> with
  the three conditions on the token, then \<^verbatim>\<open>update\<close> of the row with the found id.
  A validation error thrown by \<^verbatim>\<open>findFirst\<close> ends in the \<^verbatim>\<open>catch\<close>.
  \<open>verify_lookup\<close> is the handler up to the first await and what it does with the
  answer, \<open>verify_claim\<close> the rest.
\<close>

definition live :: "string \<Rightarrow> int \<Rightarrow> user \<Rightarrow> bool" where
  "live t at u \<longleftrightarrow>
     magicLinkToken u = Some t \<and> magicLinkUsed u = False \<and>
     (case magicLinkExpires u of None \<Rightarrow> False | Some ex \<Rightarrow> ex > at)"

text \<open>
  The \<^verbatim>\<open>where\<close> of \<^verbatim>\<open>findFirst\<close> takes the request's value as it comes. A string asks for
  equality, as \<^verbatim>\<open>{ equals: s }\<close> does; \<^verbatim>\<open>{ not: s }\<close> asks for a token that is not null and
  differs from \<^verbatim>\<open>s\<close>. \<open>token_where\<close> is the condition on the column, \<open>matching\<close> the whole
  \<^verbatim>\<open>where\<close>; for a string \<open>t\<close> it is \<open>live t\<close>.
\<close>

fun token_where :: "env \<Rightarrow> qvalue \<Rightarrow> (string option \<Rightarrow> bool) option" where
  "token_where ev (QStr t) = Some (\<lambda>x. x = Some t)"
| "token_where ev (QObj [(k, QStr z)]) =
     (if k = ''equals'' then Some (\<lambda>x. x = Some z)
      else if k = ''not'' then Some (\<lambda>x. x \<noteq> None \<and> x \<noteq> Some z)
      else prismaWhere ev (QObj [(k, QStr z)]))"
| "token_where ev q = prismaWhere ev q"

definition matching :: "(string option \<Rightarrow> bool) \<Rightarrow> int \<Rightarrow> user \<Rightarrow> bool" where
  "matching f at u \<longleftrightarrow>
     f (magicLinkToken u) \<and> magicLinkUsed u = False \<and>
     (case magicLinkExpires u of None \<Rightarrow> False | Some ex \<Rightarrow> ex > at)"

definition verify_lookup :: "env \<Rightarrow> user list \<Rightarrow> qvalue option \<Rightarrow> response + user" where
  "verify_lookup ev st tk =
     (case tk of
        None \<Rightarrow> Inl (reply 400 False ''Verification token is required'' None)
      | Some q \<Rightarrow>
          if q = QStr [] then Inl (reply 400 False ''Verification token is required'' None)
          else
            (case token_where ev q of
               None \<Rightarrow> Inl (reply 500 False ''Verification failed. Please try again.'' None)
             | Some f \<Rightarrow>
                 (case findFirst (matching f (now ev)) st of
                    None \<Rightarrow> Inl (reply 400 False ''Invalid or expired verification link'' None)
                  | Some u \<Rightarrow> Inr u)))"

definition verify_claim :: "env \<Rightarrow> user list \<Rightarrow> user \<Rightarrow> user list \<times> response" where
  "verify_claim ev st u =
     (case prisma_update ev (\<lambda>x. id_u x = id_u u)
             (\<lambda>x. x\<lparr>verified := True, magicLinkToken := None, magicLinkExpires := None,
                     magicLinkUsed := True\<rparr>) st of
        Inl err \<Rightarrow> (st, reply 500 False ''Verification failed. Please try again.'' None)
      | Inr (st', updatedUser) \<Rightarrow>
          (st',
           \<lparr>status = 200, success = True,
            message = ''Successfully authenticated! Welcome back!'',
            data = Some (Profile (id_u updatedUser) (email updatedUser) (name updatedUser)
                     (verified updatedUser)),
            auth_token = Some \<lparr>userId = id_u u, jwt_email = email u, jwt_verified = True\<rparr>\<rparr>))"

definition verify :: "env \<Rightarrow> user list \<Rightarrow> qvalue option \<Rightarrow> result" where
  "verify ev st tk =
     (case verify_lookup ev st tk of
        Inl r \<Rightarrow> \<lparr>store = st, response = r, sent = []\<rparr>
      | Inr u \<Rightarrow>
          let (st', r) = verify_claim ev st u in \<lparr>store = st', response = r, sent = []\<rparr>)"

text \<open>\<^verbatim>\<open>cleanupExpiredTokens\<close>, run by \<^verbatim>\<open>setInterval\<close> every hour.\<close>

definition sweepable :: "int \<Rightarrow> user \<Rightarrow> bool" where
  "sweepable at u \<longleftrightarrow>
     (case magicLinkExpires u of None \<Rightarrow> False | Some ex \<Rightarrow> ex < at) \<and> magicLinkToken u \<noteq> None"

definition cleanupExpiredTokens :: "env \<Rightarrow> user list \<Rightarrow> user list \<times> nat" where
  "cleanupExpiredTokens ev st =
     prisma_updateMany ev (sweepable (now ev))
       (\<lambda>u. u\<lparr>magicLinkToken := None, magicLinkExpires := None, magicLinkUsed := False\<rparr>) st"

section \<open>Executions\<close>

text \<open>The three routes that issue a magic link, for a request whose email is a string.\<close>

datatype route = SignupRoute "string option" | LoginRoute | ResendRoute

definition issue :: "config \<Rightarrow> env \<Rightarrow> user list \<Rightarrow> route \<Rightarrow> string \<Rightarrow> result" where
  "issue cfg ev st rt e =
     (case rt of
        SignupRoute nm \<Rightarrow> signup cfg ev st (Some (JStr e)) nm
      | LoginRoute \<Rightarrow> login cfg ev st (Some (JStr e))
      | ResendRoute \<Rightarrow> resend cfg ev st (Some (JStr e)))"

text \<open>
  A sequential execution is a list of events, each handled to its end before the next
  starts: the four requests that write to the table, and a tick of the cleanup timer.
  (\<^verbatim>\<open>/api/auth/logout\<close> and \<^verbatim>\<open>/api/me\<close> write nothing.)
\<close>

datatype event =
    Signup env "json option" "string option"
  | Login env "json option"
  | Resend env "json option"
  | Verify env "qvalue option"
  | Cleanup env

fun step :: "config \<Rightarrow> user list \<Rightarrow> event \<Rightarrow> user list" where
  "step cfg st (Signup ev em nm) = store (signup cfg ev st em nm)"
| "step cfg st (Login ev em) = store (login cfg ev st em)"
| "step cfg st (Resend ev em) = store (resend cfg ev st em)"
| "step cfg st (Verify ev tk) = store (verify ev st tk)"
| "step cfg st (Cleanup ev) = fst (cleanupExpiredTokens ev st)"

fun run :: "config \<Rightarrow> user list \<Rightarrow> event list \<Rightarrow> user list" where
  "run cfg st [] = st"
| "run cfg st (e # es) = run cfg (step cfg st e) es"

text \<open>The token an issuing request draws from \<^verbatim>\<open>crypto.randomBytes\<close>.\<close>

fun drawn :: "event \<Rightarrow> string option" where
  "drawn (Signup ev em nm) = Some (newToken ev)"
| "drawn (Login ev em) = Some (newToken ev)"
| "drawn (Resend ev em) = Some (newToken ev)"
| "drawn (Verify ev tk) = None"
| "drawn (Cleanup ev) = None"

text \<open>
  Concurrent verification requests. Node runs one handler at a time and switches only
  at an \<^verbatim>\<open>await\<close>; the verify handler has two, so a request in flight is waiting for
  \<^verbatim>\<open>findFirst\<close>, waiting for \<^verbatim>\<open>update\<close>, or answered. A schedule names, step by step,
  the request whose awaited call the database serves next.
\<close>

datatype task = AwaitFind env "qvalue option" | AwaitUpdate env user | Answered response

fun advance :: "user list \<Rightarrow> task \<Rightarrow> user list \<times> task" where
  "advance st (AwaitFind ev tk) =
     (case verify_lookup ev st tk of
        Inl r \<Rightarrow> (st, Answered r)
      | Inr u \<Rightarrow> (st, AwaitUpdate ev u))"
| "advance st (AwaitUpdate ev u) =
     (case verify_claim ev st u of (st', r) \<Rightarrow> (st', Answered r))"
| "advance st (Answered r) = (st, Answered r)"

fun schedule :: "user list \<Rightarrow> task list \<Rightarrow> nat list \<Rightarrow> user list \<times> task list" where
  "schedule st ts [] = (st, ts)"
| "schedule st ts (i # is) =
     (if i < length ts then
        (case advance st (ts ! i) of (st', t') \<Rightarrow> schedule st' (ts[i := t']) is)
      else schedule st ts is)"

section \<open>Well-formed tables\<close>

text \<open>
  What every table the handlers can build satisfies: the unique indexes hold, every
  stored email passed the check of the handler that stored it, and no stored token is
  the empty string.
\<close>

definition wf_store :: "user list \<Rightarrow> bool" where
  "wf_store st \<longleftrightarrow>
     unique_ok st \<and> (\<forall>u \<in> set st. \<not> invalid_email (Some (JStr (email u)))) \<and>
     [] \<notin> set (tokens st)"

section \<open>Auxiliary notions for the proofs\<close>

text \<open>What the \<^verbatim>\<open>data\<close> of every issuing \<^verbatim>\<open>update\<close> does to the row it is given.\<close>

definition issues :: "env \<Rightarrow> (user \<Rightarrow> user) \<Rightarrow> bool" where
  "issues ev g \<longleftrightarrow>
     (\<forall>x. id_u (g x) = id_u x \<and> email (g x) = email x \<and> verified (g x) = verified x \<and>
          createdAt (g x) = createdAt x \<and>
          magicLinkToken (g x) = Some (newToken ev) \<and>
          magicLinkExpires (g x) = Some (newExpiry ev) \<and> magicLinkUsed (g x) = False)"

text \<open>The table after an issuing write for the email \<open>e\<close> went through: the first row
  with that email rewritten, or a new unverified row appended.\<close>

definition wrote :: "env \<Rightarrow> string \<Rightarrow> user list \<Rightarrow> user list \<Rightarrow> bool" where
  "wrote ev e st st' \<longleftrightarrow>
     unique_ok st' \<and>
     ((\<exists>u g. find (\<lambda>x. email x = e) st = Some u \<and> issues ev g \<and>
             st' = update_first (\<lambda>x. email x = e) g st) \<or>
      (\<exists>u. find (\<lambda>x. email x = e) st = None \<and> st' = st @ [u] \<and> email u = e \<and>
           verified u = False \<and> magicLinkToken u = Some (newToken ev) \<and>
           magicLinkExpires u = Some (newExpiry ev) \<and> magicLinkUsed u = False))"

text \<open>The condition on the row \<^verbatim>\<open>findUnique\<close> returned under which a route goes on to issue.\<close>

definition gate :: "route \<Rightarrow> user option \<Rightarrow> bool" where
  "gate rt found =
     (case rt of
        SignupRoute nm \<Rightarrow> (case found of None \<Rightarrow> True | Some u \<Rightarrow> \<not> verified u)
      | LoginRoute \<Rightarrow> (case found of None \<Rightarrow> False | Some u \<Rightarrow> verified u)
      | ResendRoute \<Rightarrow> (case found of None \<Rightarrow> False | Some u \<Rightarrow> \<not> verified u))"

text \<open>A request that reached the notifier.\<close>

definition issued_ok :: "env \<Rightarrow> route \<Rightarrow> string \<Rightarrow> user list \<Rightarrow> result \<Rightarrow> bool" where
  "issued_ok ev rt e st r \<longleftrightarrow>
     sent r \<noteq> [] \<and> wrote ev e st (store r) \<and> \<not> invalid_email (Some (JStr e)) \<and>
     gate rt (findUnique_email st e) \<and>
     status (response r) = (if mailOk ev then 200 else 500) \<and>
     success (response r) = mailOk ev"

text \<open>A request that returned without writing and without reaching the notifier.\<close>

definition refused :: "user list \<Rightarrow> result \<Rightarrow> bool" where
  "refused st r \<longleftrightarrow> sent r = [] \<and> store r = st \<and> status (response r) \<noteq> 200 \<and> \<not> success (response r)"

text \<open>The \<^verbatim>\<open>data\<close> of the \<^verbatim>\<open>update\<close> in the verify handler, with \<^verbatim>\<open>updatedAt\<close>.\<close>

definition claim_data :: "env \<Rightarrow> user \<Rightarrow> user" where
  "claim_data ev x = x\<lparr>verified := True, magicLinkToken := None, magicLinkExpires := None,
                     magicLinkUsed := True, updatedAt := now ev\<rparr>"

text \<open>The response of the verify handler when \<^verbatim>\<open>findFirst\<close> finds no row.\<close>

definition invalid_link :: response where
  "invalid_link = reply 400 False ''Invalid or expired verification link'' None"

text \<open>A verification that found its row and wrote it.\<close>

definition claimed :: "env \<Rightarrow> user list \<Rightarrow> qvalue option \<Rightarrow> result \<Rightarrow> bool" where
  "claimed ev st tk r \<longleftrightarrow>
     (\<exists>q f u. tk = Some q \<and> q \<noteq> QStr [] \<and> token_where ev q = Some f \<and>
            find (matching f (now ev)) st = Some u \<and>
            store r = update_first (\<lambda>x. id_u x = id_u u) (claim_data ev) st \<and>
            unique_ok (store r)) \<and>
     status (response r) = 200"

text \<open>What \<^verbatim>\<open>cleanupExpiredTokens\<close> does to one row.\<close>

definition sweep_data :: "env \<Rightarrow> user \<Rightarrow> user" where
  "sweep_data ev u =
     (if sweepable (now ev) u
      then u\<lparr>magicLinkToken := None, magicLinkExpires := None, magicLinkUsed := False,
             updatedAt := now ev\<rparr>
      else u)"

text \<open>The response of the three issuing routes to a request whose email fails the check.\<close>

definition invalid_input :: response where
  "invalid_input = reply 400 False ''Valid email is required'' None"

text \<open>How each request of a list of tasks was answered, if it was.\<close>

definition statuses :: "task list \<Rightarrow> nat option list" where
  "statuses ts = map (\<lambda>t. case t of Answered r \<Rightarrow> Some (status r) | _ \<Rightarrow> None) ts"

section \<open>Example data\<close>

text \<open>A configuration; an environment with a fixed clock reading, random byte and mail
  outcome, in which Prisma rejects every \<^verbatim>\<open>where\<close> value the model does not spell out; an
  unverified account holding the token \<^verbatim>\<open>T1\<close> and a verified one holding \<^verbatim>\<open>T2\<close>, both
  expiring at 900000.\<close>

definition cfg0 :: config where
  "cfg0 = \<lparr>PORT = ''5001''\<rparr>"

definition env_at :: "int \<Rightarrow> 8 word \<Rightarrow> bool \<Rightarrow> env" where
  "env_at t b ok =
     \<lparr>now = t, rnd = (\<lambda>_. b), cuid = ''c2'', mailOk = ok, prismaWhere = (\<lambda>_. None)\<rparr>"

definition alice :: user where
  "alice = \<lparr>id_u = ''c1'', email = ''a@x.com'', name = Some ''A'', verified = False,
            magicLinkToken = Some ''T1'', magicLinkExpires = Some 900000,
            magicLinkUsed = False, createdAt = 0, updatedAt = 0\<rparr>"

definition bob :: user where
  "bob = \<lparr>id_u = ''c3'', email = ''b@x.com'', name = None, verified = True,
          magicLinkToken = Some ''T2'', magicLinkExpires = Some 900000,
          magicLinkUsed = False, createdAt = 0, updatedAt = 0\<rparr>"

section \<open>Lists of rows\<close>

lemma length_newToken: "length (newToken ev) = 64"
  by (simp add: newToken_def toString_hex_def randomBytes_def hexByte_def length_concat comp_def sum_list_triv)

lemma newToken_nonempty: "newToken ev \<noteq> []"
  using length_newToken [of ev] by auto

lemma set_tokens: "set (tokens st) = {t. \<exists>u \<in> set st. magicLinkToken u = Some t}"
  by (induction st) (auto split: option.splits)

lemma length_update_first [simp]: "length (update_first wh f st) = length st"
  by (induction st) auto

lemma nth_update_first:
  "k < length st \<Longrightarrow> update_first wh f st ! k = st ! k \<or> (wh (st ! k) \<and> update_first wh f st ! k = f (st ! k))"
proof (induction st arbitrary: k)
  case Nil
  then show ?case by simp
next
  case (Cons a as)
  then show ?case by (cases k) auto
qed

lemma set_update_first:
  "x \<in> set (update_first wh f st) \<Longrightarrow> x \<in> set st \<or> (\<exists>u \<in> set st. wh u \<and> x = f u)"
  by (induction st) (auto split: if_splits)

lemma map_update_first:
  "(\<And>x. g (f x) = g x) \<Longrightarrow> map g (update_first wh f st) = map g st"
  by (induction st) auto

lemma find_update_first:
  "find wh st = Some u \<Longrightarrow> wh (f u) \<Longrightarrow> find wh (update_first wh f st) = Some (f u)"
  by (induction st) (auto split: if_splits)

lemma find_update_first_None:
  "find wh st = None \<Longrightarrow> update_first wh f st = st"
  by (induction st) (auto split: if_splits)

lemma find_by_id:
  "distinct (map id_u st) \<Longrightarrow> u \<in> set st \<Longrightarrow> find (\<lambda>x. id_u x = id_u u) st = Some u"
  by (induction st) (auto split: if_splits)

lemma find_mem: "find P st = Some u \<Longrightarrow> u \<in> set st \<and> P u"
  by (induction st) (auto split: if_splits)

text \<open>After the first matching row, holder of t, is rewritten, only the rewritten row can hold t.\<close>
lemma update_first_token_holder:
  "distinct (tokens st) \<Longrightarrow> find wh st = Some u \<Longrightarrow> magicLinkToken u = Some t \<Longrightarrow>
   x \<in> set (update_first wh f st) \<Longrightarrow> magicLinkToken x = Some t \<Longrightarrow> x = f u"
proof (induction st)
  case Nil
  then show ?case by simp
next
  case (Cons a as)
  show ?case
  proof (cases "wh a")
    case True
    with Cons.prems have ua: "u = a" and x: "x = f a \<or> x \<in> set as" by auto
    from Cons.prems(1,3) ua have "t \<notin> set (tokens as)" by simp
    with Cons.prems(5) have "x \<notin> set as" by (auto simp: set_tokens)
    with x ua show ?thesis by simp
  next
    case False
    with Cons.prems have fu: "find wh as = Some u" and x: "x = a \<or> x \<in> set (update_first wh f as)"
      by auto
    from fu have "u \<in> set as" by (simp add: find_mem)
    with Cons.prems(3) have tin: "t \<in> set (tokens as)" by (auto simp: set_tokens)
    have da: "distinct (tokens as)" using Cons.prems(1) by (auto split: option.splits)
    have "x \<noteq> a"
    proof
      assume "x = a"
      with Cons.prems(5) have "tokens (a # as) = t # tokens as" by simp
      with Cons.prems(1) tin show False by simp
    qed
    with x have "x \<in> set (update_first wh f as)" by simp
    from Cons.IH [OF da fu Cons.prems(3) this Cons.prems(5)] show ?thesis .
  qed
qed

section \<open>Requests that carry strings\<close>

lemma invalid_email_string:
  "invalid_email (Some (JStr e)) \<longleftrightarrow> e = [] \<or> CHR ''@'' \<notin> set e"
  by (auto simp: invalid_email_def email_check_def falsy_def includes_at_def)

lemma signup_string:
  "signup cfg ev st (Some (JStr e)) nm =
     (if invalid_email (Some (JStr e))
      then \<lparr>store = st, response = reply 400 False ''Valid email is required'' None, sent = []\<rparr>
      else signup_valid cfg ev st e nm)"
  by (auto simp: signup_def invalid_email_def email_check_def falsy_def includes_at_def)

lemma login_string:
  "login cfg ev st (Some (JStr e)) =
     (if invalid_email (Some (JStr e))
      then \<lparr>store = st, response = reply 400 False ''Valid email is required'' None, sent = []\<rparr>
      else login_valid cfg ev st e)"
  by (auto simp: login_def invalid_email_def email_check_def falsy_def includes_at_def)

lemma resend_string:
  "resend cfg ev st (Some (JStr e)) =
     (if invalid_email (Some (JStr e))
      then \<lparr>store = st, response = reply 400 False ''Valid email is required'' None, sent = []\<rparr>
      else resend_valid cfg ev st e)"
  by (auto simp: resend_def invalid_email_def email_check_def falsy_def includes_at_def)

lemma matching_live: "matching (\<lambda>x. x = Some t) at = live t at"
  by (simp add: matching_def live_def fun_eq_iff)

lemma verify_lookup_string:
  "verify_lookup ev st (Some (QStr t)) =
     (if t = [] then Inl (reply 400 False ''Verification token is required'' None)
      else (case findFirst (live t (now ev)) st of
              None \<Rightarrow> Inl (reply 400 False ''Invalid or expired verification link'' None)
            | Some u \<Rightarrow> Inr u))"
  by (simp add: verify_lookup_def matching_live)

section \<open>The shape of an issuing request\<close>

lemma issues_login: "issues ev (\<lambda>x. (issue_data (newToken ev) (newExpiry ev) x)\<lparr>updatedAt := t\<rparr>)"
  by (simp add: issues_def issue_data_def)

lemma issues_signup:
  "issues ev (\<lambda>x. (issue_data (newToken ev) (newExpiry ev) x)\<lparr>name := n, updatedAt := t\<rparr>)"
  by (simp add: issues_def issue_data_def)

lemma wrote_update:
  "find (\<lambda>x. email x = e) st = Some u \<Longrightarrow> issues ev g \<Longrightarrow>
   unique_ok (update_first (\<lambda>x. email x = e) g st) \<Longrightarrow>
   wrote ev e st (update_first (\<lambda>x. email x = e) g st)"
  unfolding wrote_def by blast

lemma login_shape:
  "refused st (login cfg ev st (Some (JStr e))) \<or> issued_ok ev LoginRoute e st (login cfg ev st (Some (JStr e)))"
proof (cases "invalid_email (Some (JStr e))")
  case True
  then show ?thesis by (simp add: login_string login_valid_def refused_def reply_def)
next
  case valid: False
  show ?thesis
  proof (cases "findUnique_email st e")
    case None
    with valid show ?thesis by (simp add: login_string login_valid_def refused_def reply_def)
  next
    case (Some u)
    show ?thesis
    proof (cases "verified u")
      case False
      with valid Some show ?thesis by (simp add: login_string login_valid_def refused_def reply_def)
    next
      case True
      let ?g = "\<lambda>x. (issue_data (newToken ev) (newExpiry ev) x)\<lparr>updatedAt := now ev\<rparr>"
      let ?st' = "update_first (\<lambda>x. email x = e) ?g st"
      from Some have f: "find (\<lambda>x. email x = e) st = Some u" by (simp add: findUnique_email_def)
      show ?thesis
      proof (cases "unique_ok ?st'")
        case False
        with valid Some True f show ?thesis
          by (simp add: login_string login_valid_def refused_def reply_def prisma_update_def Let_def)
      next
        case ok: True
        have w: "wrote ev e st ?st'" by (rule wrote_update [OF f issues_login ok])
        have st: "store (login cfg ev st (Some (JStr e))) = ?st'"
          using valid Some True f ok
          by (simp add: login_string login_valid_def prisma_update_def sendMagicLinkEmail_def Let_def)
        have "issued_ok ev LoginRoute e st (login cfg ev st (Some (JStr e)))"
          unfolding issued_ok_def st
          using valid Some True f ok w
          by (simp add: login_string login_valid_def prisma_update_def sendMagicLinkEmail_def reply_def gate_def Let_def)
        then show ?thesis ..
      qed
    qed
  qed
qed

lemma resend_shape:
  "refused st (resend cfg ev st (Some (JStr e))) \<or> issued_ok ev ResendRoute e st (resend cfg ev st (Some (JStr e)))"
proof (cases "invalid_email (Some (JStr e))")
  case True
  then show ?thesis by (simp add: resend_string resend_valid_def refused_def reply_def)
next
  case valid: False
  show ?thesis
  proof (cases "findUnique_email st e")
    case None
    with valid show ?thesis by (simp add: resend_string resend_valid_def refused_def reply_def)
  next
    case (Some u)
    show ?thesis
    proof (cases "verified u")
      case True
      with valid Some show ?thesis by (simp add: resend_string resend_valid_def refused_def reply_def)
    next
      case False
      let ?g = "\<lambda>x. (issue_data (newToken ev) (newExpiry ev) x)\<lparr>updatedAt := now ev\<rparr>"
      let ?st' = "update_first (\<lambda>x. email x = e) ?g st"
      from Some have f: "find (\<lambda>x. email x = e) st = Some u" by (simp add: findUnique_email_def)
      show ?thesis
      proof (cases "unique_ok ?st'")
        case False
        with valid Some \<open>\<not> verified u\<close> f show ?thesis
          by (simp add: resend_string resend_valid_def refused_def reply_def prisma_update_def Let_def)
      next
        case ok: True
        have w: "wrote ev e st ?st'" by (rule wrote_update [OF f issues_login ok])
        have st: "store (resend cfg ev st (Some (JStr e))) = ?st'"
          using valid Some False f ok
          by (simp add: resend_string resend_valid_def prisma_update_def sendMagicLinkEmail_def Let_def)
        have "issued_ok ev ResendRoute e st (resend cfg ev st (Some (JStr e)))"
          unfolding issued_ok_def st
          using valid Some False f ok w
          by (simp add: resend_string resend_valid_def prisma_update_def sendMagicLinkEmail_def reply_def gate_def Let_def)
        then show ?thesis ..
      qed
    qed
  qed
qed

lemma signup_shape:
  "refused st (signup cfg ev st (Some (JStr e)) nm) \<or>
   issued_ok ev (SignupRoute nm) e st (signup cfg ev st (Some (JStr e)) nm)"
proof (cases "invalid_email (Some (JStr e))")
  case True
  then show ?thesis by (simp add: signup_string signup_valid_def refused_def reply_def)
next
  case valid: False
  show ?thesis
  proof (cases "findUnique_email st e")
    case None
    then have f: "find (\<lambda>x. email x = e) st = None" by (simp add: findUnique_email_def)
    let ?u = "\<lparr>id_u = cuid ev, email = e, name = nm, verified = False,
                magicLinkToken = Some (newToken ev), magicLinkExpires = Some (newExpiry ev),
                magicLinkUsed = False, createdAt = now ev, updatedAt = now ev\<rparr>"
    show ?thesis
    proof (cases "unique_ok (st @ [?u])")
      case False
      with valid None show ?thesis
        by (simp add: signup_string signup_valid_def refused_def reply_def prisma_create_def Let_def)
    next
      case ok: True
      have w: "wrote ev e st (st @ [?u])"
        unfolding wrote_def using f ok by simp
      have st: "store (signup cfg ev st (Some (JStr e)) nm) = st @ [?u]"
        using valid None ok
        by (simp add: signup_string signup_valid_def prisma_create_def sendMagicLinkEmail_def Let_def)
      have "issued_ok ev (SignupRoute nm) e st (signup cfg ev st (Some (JStr e)) nm)"
        unfolding issued_ok_def st
        using valid None ok w
        by (simp add: signup_string signup_valid_def prisma_create_def sendMagicLinkEmail_def reply_def gate_def Let_def)
      then show ?thesis ..
    qed
  next
    case (Some u)
    show ?thesis
    proof (cases "verified u")
      case True
      with valid Some show ?thesis by (simp add: signup_string signup_valid_def refused_def reply_def)
    next
      case False
      let ?g = "\<lambda>x. (issue_data (newToken ev) (newExpiry ev) x)
                     \<lparr>name := or_else nm (name u), updatedAt := now ev\<rparr>"
      let ?st' = "update_first (\<lambda>x. email x = e) ?g st"
      from Some have f: "find (\<lambda>x. email x = e) st = Some u" by (simp add: findUnique_email_def)
      show ?thesis
      proof (cases "unique_ok ?st'")
        case False
        with valid Some \<open>\<not> verified u\<close> f show ?thesis
          by (simp add: signup_string signup_valid_def refused_def reply_def prisma_update_def Let_def)
      next
        case ok: True
        have w: "wrote ev e st ?st'" by (rule wrote_update [OF f issues_signup ok])
        have st: "store (signup cfg ev st (Some (JStr e)) nm) = ?st'"
          using valid Some False f ok
          by (simp add: signup_string signup_valid_def prisma_update_def sendMagicLinkEmail_def Let_def)
        have "issued_ok ev (SignupRoute nm) e st (signup cfg ev st (Some (JStr e)) nm)"
          unfolding issued_ok_def st
          using valid Some False f ok w
          by (simp add: signup_string signup_valid_def prisma_update_def sendMagicLinkEmail_def reply_def gate_def Let_def)
        then show ?thesis ..
      qed
    qed
  qed
qed

lemma issue_shape: "refused st (issue cfg ev st rt e) \<or> issued_ok ev rt e st (issue cfg ev st rt e)"
  by (cases rt) (simp_all add: issue_def signup_shape login_shape resend_shape)

section \<open>What an issuing write leaves in the table\<close>

lemma find_append:
  "find P (xs @ ys) = (case find P xs of None \<Rightarrow> find P ys | Some x \<Rightarrow> Some x)"
  by (induction xs) auto

lemma tokens_append: "tokens (xs @ ys) = tokens xs @ tokens ys"
  by (induction xs) (auto split: option.splits)

lemma wrote_found:
  assumes "wrote ev e st st'"
  shows "\<exists>u'. findUnique_email st' e = Some u' \<and> magicLinkToken u' = Some (newToken ev) \<and>
           magicLinkExpires u' = Some (newExpiry ev) \<and> \<not> magicLinkUsed u' \<and>
           (case findUnique_email st e of
              None \<Rightarrow> \<not> verified u'
            | Some u \<Rightarrow> id_u u' = id_u u \<and> verified u' = verified u \<and> createdAt u' = createdAt u)"
  using assms unfolding wrote_def
proof (elim conjE disjE exE)
  fix u g
  assume f: "find (\<lambda>x. email x = e) st = Some u" and g: "issues ev g"
    and st': "st' = update_first (\<lambda>x. email x = e) g st"
  from find_mem [OF f] have "email u = e" by simp
  with g have "email (g u) = e" by (simp add: issues_def)
  with f have "find (\<lambda>x. email x = e) st' = Some (g u)"
    unfolding st' by (intro find_update_first) auto
  with g f show ?thesis by (simp add: findUnique_email_def issues_def)
next
  fix u
  assume "find (\<lambda>x. email x = e) st = None" "st' = st @ [u]" "email u = e" "verified u = False"
    "magicLinkToken u = Some (newToken ev)" "magicLinkExpires u = Some (newExpiry ev)"
    "magicLinkUsed u = False"
  then show ?thesis by (simp add: findUnique_email_def find_append split: option.splits)
qed

lemma wrote_set:
  assumes "wrote ev e st st'" "x \<in> set st'"
  shows "x \<in> set st \<or> (email x = e \<and> magicLinkToken x = Some (newToken ev))"
proof -
  from assms(1) consider
      (upd) g where "issues ev g" "st' = update_first (\<lambda>x. email x = e) g st"
    | (new) u where "st' = st @ [u]" "email u = e" "magicLinkToken u = Some (newToken ev)"
    unfolding wrote_def by blast
  then show ?thesis
  proof cases
    case upd
    from assms(2) [unfolded upd(2)] have "x \<in> set st \<or> (\<exists>y \<in> set st. email y = e \<and> x = g y)"
      by (rule set_update_first)
    with upd(1) show ?thesis by (auto simp: issues_def)
  next
    case new
    with assms(2) show ?thesis by auto
  qed
qed

lemma wrote_wf:
  assumes "wf_store st" "\<not> invalid_email (Some (JStr e))" "wrote ev e st st'"
  shows "wf_store st'"
proof -
  have u: "unique_ok st'" using assms(3) by (simp add: wrote_def)
  have em: "\<forall>x \<in> set st'. \<not> invalid_email (Some (JStr (email x)))"
    using wrote_set [OF assms(3)] assms(1,2) by (auto simp: wf_store_def)
  have "\<And>t. t \<in> set (tokens st') \<Longrightarrow> t \<noteq> []"
  proof -
    fix t assume "t \<in> set (tokens st')"
    then obtain x where x: "x \<in> set st'" "magicLinkToken x = Some t" by (auto simp: set_tokens)
    from wrote_set [OF assms(3) x(1)] show "t \<noteq> []"
    proof
      assume "x \<in> set st"
      with x(2) have "t \<in> set (tokens st)" by (auto simp: set_tokens)
      with assms(1) show ?thesis by (auto simp: wf_store_def)
    next
      assume "email x = e \<and> magicLinkToken x = Some (newToken ev)"
      with x(2) newToken_nonempty [of ev] show ?thesis by auto
    qed
  qed
  then have "[] \<notin> set (tokens st')" by blast
  with u em show ?thesis by (simp add: wf_store_def)
qed

lemma wrote_absent:
  assumes "wrote ev e st st'" "\<forall>x \<in> set st. magicLinkToken x \<noteq> Some t" "newToken ev \<noteq> t"
  shows "\<forall>x \<in> set st'. magicLinkToken x \<noteq> Some t"
proof
  fix x assume "x \<in> set st'"
  from wrote_set [OF assms(1) this] assms(2,3) show "magicLinkToken x \<noteq> Some t" by auto
qed


lemma wrote_positions:
  assumes "wrote ev e st st'"
  shows "length st \<le> length st' \<and>
         (\<forall>k<length st. id_u (st' ! k) = id_u (st ! k) \<and> verified (st' ! k) = verified (st ! k)) \<and>
         (\<forall>k. length st \<le> k \<and> k < length st' \<longrightarrow> \<not> verified (st' ! k))"
proof -
  from assms consider
      (upd) g where "issues ev g" "st' = update_first (\<lambda>x. email x = e) g st"
    | (new) u where "st' = st @ [u]" "verified u = False"
    unfolding wrote_def by blast
  then show ?thesis
  proof cases
    case upd
    have len: "length st' = length st" by (simp add: upd(2))
    have "id_u (st' ! k) = id_u (st ! k) \<and> verified (st' ! k) = verified (st ! k)"
      if "k < length st" for k
    proof -
      from nth_update_first [OF that, of "\<lambda>x. email x = e" g]
      have "st' ! k = st ! k \<or> st' ! k = g (st ! k)" unfolding upd(2) by blast
      moreover from upd(1) have "id_u (g (st ! k)) = id_u (st ! k) \<and> verified (g (st ! k)) = verified (st ! k)"
        by (simp add: issues_def)
      ultimately show ?thesis by metis
    qed
    with len show ?thesis by auto
  next
    case new
    have "st' ! k = st ! k" if "k < length st" for k using that by (simp add: new(1) nth_append)
    moreover have "st' ! k = u" if "length st \<le> k" "k < length st'" for k
      using that by (simp add: new(1) nth_append less_Suc_eq_le)
    ultimately show ?thesis using new(2) by (simp add: new(1))
  qed
qed

section \<open>Verification and cleanup\<close>

lemma verify_sent [simp]: "sent (verify ev st tk) = []"
  by (simp add: verify_def split: sum.splits prod.splits)

lemma verify_invalid:
  "t \<noteq> [] \<Longrightarrow> find (live t (now ev)) st = None \<Longrightarrow>
   verify ev st (Some (QStr t)) = \<lparr>store = st, response = invalid_link, sent = []\<rparr>"
  by (simp add: verify_def verify_lookup_string findFirst_def invalid_link_def)

lemma find_None_iff: "find P xs = None \<longleftrightarrow> (\<forall>x \<in> set xs. \<not> P x)"
  by (induction xs) auto

lemma verify_shape:
  "(store (verify ev st tk) = st \<and> status (response (verify ev st tk)) \<noteq> 200) \<or>
   claimed ev st tk (verify ev st tk)"
proof (cases "verify_lookup ev st tk")
  case (Inl r)
  then have "status r \<noteq> 200"
    by (auto simp: verify_lookup_def reply_def split: option.splits if_splits)
  with Inl show ?thesis by (simp add: verify_def)
next
  case (Inr u)
  then obtain q f where t: "tk = Some q" "q \<noteq> QStr []" "token_where ev q = Some f"
      "find (matching f (now ev)) st = Some u"
    by (auto simp: verify_lookup_def findFirst_def split: option.splits if_splits)
  let ?st' = "update_first (\<lambda>x. id_u x = id_u u) (claim_data ev) st"
  have cd: "(\<lambda>x. x\<lparr>verified := True, magicLinkToken := None, magicLinkExpires := None,
                   magicLinkUsed := True\<rparr>\<lparr>updatedAt := now ev\<rparr>) = claim_data ev"
    by (simp add: claim_data_def fun_eq_iff)
  show ?thesis
  proof (cases "prisma_update ev (\<lambda>x. id_u x = id_u u)
             (\<lambda>x. x\<lparr>verified := True, magicLinkToken := None, magicLinkExpires := None,
                     magicLinkUsed := True\<rparr>) st")
    case (Inl err)
    with Inr show ?thesis by (simp add: verify_def verify_claim_def reply_def)
  next
    case (Inr p)
    then have p: "fst p = ?st'" "unique_ok ?st'"
      by (auto simp: prisma_update_def Let_def cd split: option.splits if_splits)
    from Inr \<open>verify_lookup ev st tk = Inr u\<close>
    have "store (verify ev st tk) = fst p" "status (response (verify ev st tk)) = 200"
      by (auto simp: verify_def verify_claim_def split: prod.splits)
    with p t have "claimed ev st tk (verify ev st tk)" by (auto simp: claimed_def)
    then show ?thesis ..
  qed
qed

lemma claimed_clears:
  assumes "claimed ev st (Some (QStr t)) r" "unique_ok st"
  shows "\<forall>x \<in> set (store r). magicLinkToken x \<noteq> Some t"
proof
  fix x assume x: "x \<in> set (store r)"
  from assms(1) obtain f and u :: user where f: "token_where ev (QStr t) = Some f"
    and m: "find (matching f (now ev)) st = Some u"
    and st': "store r = update_first (\<lambda>x. id_u x = id_u u) (claim_data ev) st"
    unfolding claimed_def by blast
  from f have "f = (\<lambda>x. x = Some t)" by simp
  with m have u: "find (live t (now ev)) st = Some u" by (simp add: matching_live)
  from find_mem [OF u] have mem: "u \<in> set st" and tok: "magicLinkToken u = Some t"
    by (auto simp: live_def)
  from assms(2) have d: "distinct (map id_u st)" "distinct (tokens st)" by (auto simp: unique_ok_def)
  from find_by_id [OF d(1) mem] have f: "find (\<lambda>x. id_u x = id_u u) st = Some u" .
  show "magicLinkToken x \<noteq> Some t"
  proof
    assume "magicLinkToken x = Some t"
    from update_first_token_holder [OF d(2) f tok x [unfolded st'] this]
    have "x = claim_data ev u" .
    with \<open>magicLinkToken x = Some t\<close> show False by (simp add: claim_data_def)
  qed
qed

lemma claimed_set:
  assumes "claimed ev st tk r" "x \<in> set (store r)"
  shows "x \<in> set st \<or> (\<exists>y \<in> set st. x = claim_data ev y)"
proof -
  from assms(1) obtain u :: user
    where "store r = update_first (\<lambda>x. id_u x = id_u u) (claim_data ev) st"
    unfolding claimed_def by blast
  with assms(2) set_update_first [of x "\<lambda>x. id_u x = id_u u" "claim_data ev" st]
  show ?thesis by auto
qed

lemma verify_absent:
  assumes "\<forall>x \<in> set st. magicLinkToken x \<noteq> Some t"
  shows "\<forall>x \<in> set (store (verify ev st tk)). magicLinkToken x \<noteq> Some t"
proof
  fix x assume x: "x \<in> set (store (verify ev st tk))"
  from verify_shape [of ev st tk] show "magicLinkToken x \<noteq> Some t"
  proof
    assume "store (verify ev st tk) = st \<and> status (response (verify ev st tk)) \<noteq> 200"
    with x assms show ?thesis by simp
  next
    assume "claimed ev st tk (verify ev st tk)"
    from claimed_set [OF this x] assms show ?thesis by (auto simp: claim_data_def)
  qed
qed

lemma cleanup_map: "fst (cleanupExpiredTokens ev st) = map (sweep_data ev) st"
  by (simp add: cleanupExpiredTokens_def prisma_updateMany_def sweep_data_def)

lemma sweep_data_token:
  "magicLinkToken (sweep_data ev u) = None \<or> sweep_data ev u = u"
  by (simp add: sweep_data_def)

lemma sweep_data_fields [simp]:
  "id_u (sweep_data ev u) = id_u u" "email (sweep_data ev u) = email u"
  "verified (sweep_data ev u) = verified u"
  by (simp_all add: sweep_data_def)

lemma tokens_sweep_subset: "set (tokens (map (sweep_data ev) st)) \<subseteq> set (tokens st)"
proof
  fix t assume "t \<in> set (tokens (map (sweep_data ev) st))"
  then obtain u where u: "u \<in> set st" "magicLinkToken (sweep_data ev u) = Some t"
    by (auto simp: set_tokens)
  with sweep_data_token [of ev u] have "magicLinkToken u = Some t" by auto
  with u(1) show "t \<in> set (tokens st)" by (auto simp: set_tokens)
qed

lemma distinct_tokens_sweep:
  "distinct (tokens st) \<Longrightarrow> distinct (tokens (map (sweep_data ev) st))"
proof (induction st)
  case Nil
  then show ?case by simp
next
  case (Cons a as)
  then have d: "distinct (tokens as)" by (auto split: option.splits)
  note IH = Cons.IH [OF d]
  from sweep_data_token [of ev a] show ?case
  proof
    assume "magicLinkToken (sweep_data ev a) = None"
    with IH show ?thesis by simp
  next
    assume same: "sweep_data ev a = a"
    show ?thesis
    proof (cases "magicLinkToken a")
      case None
      with same IH show ?thesis by simp
    next
      case (Some t)
      with Cons.prems have "t \<notin> set (tokens as)" by simp
      with tokens_sweep_subset [of ev as] have "t \<notin> set (tokens (map (sweep_data ev) as))" by blast
      with same Some IH show ?thesis by simp
    qed
  qed
qed

lemma cleanup_wf: "wf_store st \<Longrightarrow> wf_store (fst (cleanupExpiredTokens ev st))"
  unfolding cleanup_map wf_store_def unique_ok_def
  using tokens_sweep_subset [of ev st]
  by (auto simp: comp_def distinct_tokens_sweep)

lemma cleanup_absent:
  assumes "\<forall>x \<in> set st. magicLinkToken x \<noteq> Some t"
  shows "\<forall>x \<in> set (fst (cleanupExpiredTokens ev st)). magicLinkToken x \<noteq> Some t"
proof
  fix x assume "x \<in> set (fst (cleanupExpiredTokens ev st))"
  then obtain u where "u \<in> set st" "x = sweep_data ev u" by (auto simp: cleanup_map)
  with sweep_data_token [of ev u] assms show "magicLinkToken x \<noteq> Some t" by auto
qed

section \<open>Steps and executions\<close>

lemma signup_store:
  "store (signup cfg ev st em nm) = st \<or>
   (\<exists>e. em = Some (JStr e) \<and> \<not> invalid_email (Some (JStr e)) \<and>
        wrote ev e st (store (signup cfg ev st em nm)))"
proof (cases "\<exists>e. em = Some (JStr e)")
  case True
  then obtain e where "em = Some (JStr e)" ..
  with signup_shape [of st cfg ev e nm] show ?thesis by (auto simp: refused_def issued_ok_def)
next
  case False
  then have "store (signup cfg ev st em nm) = st"
    by (auto simp: signup_def split: sum.splits option.splits json.splits)
  then show ?thesis ..
qed

lemma login_store:
  "store (login cfg ev st em) = st \<or>
   (\<exists>e. em = Some (JStr e) \<and> \<not> invalid_email (Some (JStr e)) \<and>
        wrote ev e st (store (login cfg ev st em)))"
proof (cases "\<exists>e. em = Some (JStr e)")
  case True
  then obtain e where "em = Some (JStr e)" ..
  with login_shape [of st cfg ev e] show ?thesis by (auto simp: refused_def issued_ok_def)
next
  case False
  then have "store (login cfg ev st em) = st"
    by (auto simp: login_def split: sum.splits option.splits json.splits)
  then show ?thesis ..
qed

lemma resend_store:
  "store (resend cfg ev st em) = st \<or>
   (\<exists>e. em = Some (JStr e) \<and> \<not> invalid_email (Some (JStr e)) \<and>
        wrote ev e st (store (resend cfg ev st em)))"
proof (cases "\<exists>e. em = Some (JStr e)")
  case True
  then obtain e where "em = Some (JStr e)" ..
  with resend_shape [of st cfg ev e] show ?thesis by (auto simp: refused_def issued_ok_def)
next
  case False
  then have "store (resend cfg ev st em) = st"
    by (auto simp: resend_def split: sum.splits option.splits json.splits)
  then show ?thesis ..
qed

lemma step_cases:
  "step cfg st e = st \<or>
   (\<exists>ev em. drawn e = Some (newToken ev) \<and> \<not> invalid_email (Some (JStr em)) \<and> wrote ev em st (step cfg st e)) \<or>
   (\<exists>ev tk. e = Verify ev tk \<and> claimed ev st tk (verify ev st tk)) \<or>
   (\<exists>ev. e = Cleanup ev)"
proof (cases e)
  case (Signup ev em nm)
  with signup_store [of cfg ev st em nm] show ?thesis by auto
next
  case (Login ev em)
  with login_store [of cfg ev st em] show ?thesis by auto
next
  case (Resend ev em)
  with resend_store [of cfg ev st em] show ?thesis by auto
next
  case (Verify ev tk)
  with verify_shape [of ev st tk] show ?thesis by auto
next
  case (Cleanup ev)
  then show ?thesis by simp
qed

lemma step_absent:
  assumes "\<forall>x \<in> set st. magicLinkToken x \<noteq> Some t" "drawn e \<noteq> Some t"
  shows "\<forall>x \<in> set (step cfg st e). magicLinkToken x \<noteq> Some t"
proof -
  from step_cases [of cfg st e] consider
      (same) "step cfg st e = st"
    | (wrote) ev em where "drawn e = Some (newToken ev)" "wrote ev em st (step cfg st e)"
    | (verify) ev tk where "e = Verify ev tk"
    | (cleanup) ev where "e = Cleanup ev"
    by blast
  then show ?thesis
  proof cases
    case same
    with assms(1) show ?thesis by simp
  next
    case wrote
    from wrote(1) assms(2) have "newToken ev \<noteq> t" by auto
    from wrote_absent [OF wrote(2) assms(1) this] show ?thesis .
  next
    case verify
    with verify_absent [OF assms(1), of ev tk] show ?thesis by simp
  next
    case cleanup
    with cleanup_absent [OF assms(1), of ev] show ?thesis by simp
  qed
qed

lemma run_absent:
  "\<forall>x \<in> set st. magicLinkToken x \<noteq> Some t \<Longrightarrow> \<forall>e \<in> set es. drawn e \<noteq> Some t \<Longrightarrow>
   \<forall>x \<in> set (run cfg st es). magicLinkToken x \<noteq> Some t"
proof (induction es arbitrary: st)
  case Nil
  then show ?case by simp
next
  case (Cons e es)
  from Cons.prems have "\<forall>x \<in> set (step cfg st e). magicLinkToken x \<noteq> Some t"
    by (intro step_absent) auto
  with Cons.IH [of "step cfg st e"] Cons.prems(2) show ?case by simp
qed

lemma claimed_wf:
  assumes "claimed ev st tk r" "wf_store st"
  shows "wf_store (store r)"
proof -
  from assms(1) have u: "unique_ok (store r)" unfolding claimed_def by blast
  have em: "\<not> invalid_email (Some (JStr (email x)))" if "x \<in> set (store r)" for x
    using claimed_set [OF assms(1) that] assms(2) by (auto simp: wf_store_def claim_data_def)
  have "t \<noteq> []" if "t \<in> set (tokens (store r))" for t
  proof -
    from that obtain x where x: "x \<in> set (store r)" "magicLinkToken x = Some t"
      by (auto simp: set_tokens)
    from claimed_set [OF assms(1) x(1)] x(2) have "x \<in> set st" by (auto simp: claim_data_def)
    with x(2) have "t \<in> set (tokens st)" by (auto simp: set_tokens)
    with assms(2) show ?thesis by (auto simp: wf_store_def)
  qed
  then have "[] \<notin> set (tokens (store r))" by blast
  with u em show ?thesis by (simp add: wf_store_def)
qed

lemma step_wf:
  assumes "wf_store st"
  shows "wf_store (step cfg st e)"
proof -
  from step_cases [of cfg st e] consider
      (same) "step cfg st e = st"
    | (wrote) ev em where "\<not> invalid_email (Some (JStr em))" "wrote ev em st (step cfg st e)"
    | (verify) ev tk where "e = Verify ev tk" "claimed ev st tk (verify ev st tk)"
    | (cleanup) ev where "e = Cleanup ev"
    by blast
  then show ?thesis
  proof cases
    case same
    with assms show ?thesis by simp
  next
    case wrote
    from wrote_wf [OF assms wrote] show ?thesis .
  next
    case verify
    from claimed_wf [OF verify(2) assms] verify(1) show ?thesis by simp
  next
    case cleanup
    with cleanup_wf [OF assms, of ev] show ?thesis by simp
  qed
qed

lemma run_wf: "wf_store st \<Longrightarrow> wf_store (run cfg st es)"
  by (induction es arbitrary: st) (simp_all add: step_wf)

lemma wf_empty: "wf_store []"
  by (simp add: wf_store_def unique_ok_def)

text \<open>Every table an execution builds from the empty table is well formed.\<close>

lemma reachable_wf: "wf_store (run cfg [] es)"
  by (rule run_wf) (rule wf_empty)

lemma verify_no_holder:
  assumes "\<forall>x \<in> set st. magicLinkToken x \<noteq> Some t" "t \<noteq> []"
  shows "verify ev st (Some (QStr t)) = \<lparr>store = st, response = invalid_link, sent = []\<rparr>"
proof -
  from assms(1) have "find (live t (now ev)) st = None"
    by (simp add: find_None_iff live_def)
  from verify_invalid [OF assms(2) this] show ?thesis .
qed

text \<open>
  A token presented as a string verifies at most once in a sequential execution. Let the
  table satisfy its unique indexes and let \<^verbatim>\<open>verify\<close> succeed for the string \<open>t\<close>. Then
  after any list of later events (signup, login, resend, verify with any query value,
  cleanup) in which no issuing request draws the same 32 random bytes again, \<^verbatim>\<open>verify\<close>
  of \<open>t\<close> leaves the table as it is and answers 400, "Invalid or expired verification
  link".
\<close>

lemma string_token_verifies_at_most_once:
  assumes "unique_ok st"
    and "status (response (verify ev st (Some (QStr t)))) = 200"
    and "\<forall>e \<in> set es. drawn e \<noteq> Some t"
  shows "verify ev' (run cfg (store (verify ev st (Some (QStr t)))) es) (Some (QStr t)) =
           \<lparr>store = run cfg (store (verify ev st (Some (QStr t)))) es,
            response = invalid_link, sent = []\<rparr>"
proof -
  from verify_shape [of ev st "Some (QStr t)"] assms(2)
  have c: "claimed ev st (Some (QStr t)) (verify ev st (Some (QStr t)))" by auto
  then have ne: "t \<noteq> []" by (auto simp: claimed_def)
  from claimed_clears [OF c assms(1)]
  have "\<forall>x \<in> set (store (verify ev st (Some (QStr t)))). magicLinkToken x \<noteq> Some t" .
  from run_absent [OF this assms(3)]
  have "\<forall>x \<in> set (run cfg (store (verify ev st (Some (QStr t)))) es). magicLinkToken x \<noteq> Some t" .
  from verify_no_holder [OF this ne] show ?thesis .
qed

section \<open>Superseded and expired tokens, refused requests\<close>




lemma same_token_same_row:
  "distinct (tokens st) \<Longrightarrow> x \<in> set st \<Longrightarrow> y \<in> set st \<Longrightarrow>
   magicLinkToken x = Some t \<Longrightarrow> magicLinkToken y = Some t \<Longrightarrow> x = y"
proof (induction st)
  case Nil
  then show ?case by simp
next
  case (Cons a as)
  have d: "distinct (tokens as)" using Cons.prems(1) by (auto split: option.splits)
  have out: "z \<notin> set as" if "magicLinkToken a = Some t" "magicLinkToken z = Some t" for z
  proof
    assume "z \<in> set as"
    with that(2) have "t \<in> set (tokens as)" by (auto simp: set_tokens)
    with Cons.prems(1) that(1) show False by simp
  qed
  from Cons.prems(2,3) consider
      "x = a" "y = a" | "x = a" "y \<in> set as" | "x \<in> set as" "y = a" | "x \<in> set as" "y \<in> set as"
    by auto
  then show ?case
  proof cases
    case 1
    then show ?thesis by simp
  next
    case 2
    with out [of y] Cons.prems(4,5) show ?thesis by simp
  next
    case 3
    with out [of x] Cons.prems(4,5) show ?thesis by simp
  next
    case 4
    from Cons.IH [OF d 4 Cons.prems(4,5)] show ?thesis .
  qed
qed


text \<open>
  Claim C4. If the row that holds the token \<open>t\<close> has \<^verbatim>\<open>magicLinkExpires\<close> at or before the
  clock reading of the request, \<^verbatim>\<open>verify\<close> of \<open>t\<close> changes nothing and answers 400 "Invalid
  or expired verification link"; nothing is assumed about \<^verbatim>\<open>magicLinkUsed\<close>.
\<close>

theorem expired_token_never_verifies:
  assumes "wf_store st"
    and "u \<in> set st"
    and "magicLinkToken u = Some t"
    and "magicLinkExpires u = Some ex"
    and "ex \<le> now ev"
  shows "verify ev st (Some (QStr t)) = \<lparr>store = st, response = invalid_link, sent = []\<rparr>"
proof -
  from assms(1) have d: "distinct (tokens st)" and ne: "[] \<notin> set (tokens st)"
    by (auto simp: wf_store_def unique_ok_def)
  from assms(2,3) have "t \<in> set (tokens st)" by (auto simp: set_tokens)
  with ne have t: "t \<noteq> []" by auto
  have "\<not> live t (now ev) x" if "x \<in> set st" for x
  proof
    assume l: "live t (now ev) x"
    then have "magicLinkToken x = Some t" by (simp add: live_def)
    from same_token_same_row [OF d that assms(2) this assms(3)] have "x = u" .
    with l assms(4,5) show False by (simp add: live_def)
  qed
  then have "find (live t (now ev)) st = None" by (simp add: find_None_iff)
  from verify_invalid [OF t this] show ?thesis .
qed

text \<open>
  Claim C5. Signup for the email of a verified account answers 409 "Account already
  exists and verified", returns the table as it was and hands no mail to the transporter,
  whatever name the request carries and whatever the clock, the random bytes and the
  transporter would have done.
\<close>

theorem signup_verified_conflict:
  assumes "wf_store st"
    and "findUnique_email st e = Some u"
    and "verified u"
  shows "signup cfg ev st (Some (JStr e)) nm =
           \<lparr>store = st, response = reply 409 False ''Account already exists and verified'' None,
            sent = []\<rparr>"
proof -
  from find_mem [of "\<lambda>x. email x = e" st u] assms(2)
  have "u \<in> set st" "email u = e" by (auto simp: findUnique_email_def)
  with assms(1) have "\<not> invalid_email (Some (JStr e))" by (auto simp: wf_store_def)
  with assms(2,3) show ?thesis by (simp add: signup_string signup_valid_def)
qed

text \<open>
  Claim C6. Login for an email that passes the input check and has no account, and login
  for the email of an unverified account, give the same result: 404 "No verified account
  found with this email", the table unchanged, no mail.
\<close>

theorem login_notfound_indistinguishable:
  assumes "wf_store st"
    and "\<not> invalid_email (Some (JStr e1))"
    and "findUnique_email st e1 = None"
    and "findUnique_email st e2 = Some u"
    and "\<not> verified u"
  shows "login cfg ev1 st (Some (JStr e1)) = login cfg ev2 st (Some (JStr e2)) \<and>
         login cfg ev1 st (Some (JStr e1)) =
           \<lparr>store = st,
            response = reply 404 False ''No verified account found with this email'' None,
            sent = []\<rparr>"
proof -
  from find_mem [of "\<lambda>x. email x = e2" st u] assms(4)
  have "u \<in> set st" "email u = e2" by (auto simp: findUnique_email_def)
  with assms(1) have "\<not> invalid_email (Some (JStr e2))" by (auto simp: wf_store_def)
  with assms(2-5) show ?thesis by (simp add: login_string login_valid_def)
qed

text \<open>
  Claim C8. \<^verbatim>\<open>cleanupExpiredTokens\<close> keeps the number and order of rows. A row whose
  \<^verbatim>\<open>magicLinkExpires\<close> is before the clock reading and whose \<^verbatim>\<open>magicLinkToken\<close> is not null
  gets token and expiry null and \<^verbatim>\<open>magicLinkUsed = false\<close>, and keeps \<^verbatim>\<open>verified\<close>, \<^verbatim>\<open>id\<close>,
  \<^verbatim>\<open>email\<close>, \<^verbatim>\<open>name\<close> and \<^verbatim>\<open>createdAt\<close>; every other row is left as it is.
\<close>

theorem cleanup_frame:
  "length (fst (cleanupExpiredTokens ev st)) = length st \<and>
   (\<forall>k<length st.
      (\<exists>ex t. magicLinkExpires (st ! k) = Some ex \<and> ex < now ev \<and> magicLinkToken (st ! k) = Some t)
      \<longrightarrow> magicLinkToken (fst (cleanupExpiredTokens ev st) ! k) = None \<and>
          magicLinkExpires (fst (cleanupExpiredTokens ev st) ! k) = None \<and>
          magicLinkUsed (fst (cleanupExpiredTokens ev st) ! k) = False \<and>
          verified (fst (cleanupExpiredTokens ev st) ! k) = verified (st ! k) \<and>
          id_u (fst (cleanupExpiredTokens ev st) ! k) = id_u (st ! k) \<and>
          email (fst (cleanupExpiredTokens ev st) ! k) = email (st ! k) \<and>
          name (fst (cleanupExpiredTokens ev st) ! k) = name (st ! k) \<and>
          createdAt (fst (cleanupExpiredTokens ev st) ! k) = createdAt (st ! k)) \<and>
   (\<forall>k<length st.
      \<not> (\<exists>ex t. magicLinkExpires (st ! k) = Some ex \<and> ex < now ev \<and> magicLinkToken (st ! k) = Some t)
      \<longrightarrow> fst (cleanupExpiredTokens ev st) ! k = st ! k)"
proof -
  have sw: "sweepable (now ev) x \<longleftrightarrow>
      (\<exists>ex t. magicLinkExpires x = Some ex \<and> ex < now ev \<and> magicLinkToken x = Some t)" for x
    by (auto simp: sweepable_def split: option.splits)
  show ?thesis
    unfolding cleanup_map sw [symmetric]
    by (simp add: sweep_data_def)
qed

section \<open>The verified flag\<close>

lemma claimed_positions:
  assumes "claimed ev st tk r"
  shows "length (store r) = length st \<and>
         (\<forall>k<length st. id_u (store r ! k) = id_u (st ! k) \<and>
                        (verified (st ! k) \<longrightarrow> verified (store r ! k)))"
proof -
  from assms obtain u :: user
    where st': "store r = update_first (\<lambda>x. id_u x = id_u u) (claim_data ev) st"
    unfolding claimed_def by blast
  have "id_u (store r ! k) = id_u (st ! k) \<and> (verified (st ! k) \<longrightarrow> verified (store r ! k))"
    if "k < length st" for k
  proof -
    from nth_update_first [OF that, of "\<lambda>x. id_u x = id_u u" "claim_data ev"]
    have "store r ! k = st ! k \<or> store r ! k = claim_data ev (st ! k)" unfolding st' by blast
    then show ?thesis by (auto simp: claim_data_def)
  qed
  then show ?thesis by (simp add: st')
qed

lemma step_positions:
  "length st \<le> length (step cfg st e) \<and>
   (\<forall>k<length st. id_u (step cfg st e ! k) = id_u (st ! k) \<and>
                  (verified (st ! k) \<longrightarrow> verified (step cfg st e ! k))) \<and>
   (\<forall>k<length st. \<not> verified (st ! k) \<and> verified (step cfg st e ! k) \<longrightarrow>
        (\<exists>ev tk. e = Verify ev tk \<and> status (response (verify ev st tk)) = 200)) \<and>
   (\<forall>k. length st \<le> k \<and> k < length (step cfg st e) \<longrightarrow> \<not> verified (step cfg st e ! k))"
proof -
  from step_cases [of cfg st e] consider
      (same) "step cfg st e = st"
    | (wrote) ev em where "wrote ev em st (step cfg st e)"
    | (verify) ev tk where "e = Verify ev tk" "claimed ev st tk (verify ev st tk)"
    | (cleanup) ev where "e = Cleanup ev"
    by blast
  then show ?thesis
  proof cases
    case same
    then show ?thesis by auto
  next
    case wrote
    from wrote_positions [OF wrote] show ?thesis by auto
  next
    case verify
    from verify(2) have "status (response (verify ev st tk)) = 200" by (simp add: claimed_def)
    with claimed_positions [OF verify(2)] verify(1) show ?thesis by auto
  next
    case cleanup
    then show ?thesis by (auto simp: cleanup_map)
  qed
qed

lemma run_keeps_verified:
  "k < length st \<Longrightarrow> verified (st ! k) \<Longrightarrow>
   k < length (run cfg st es) \<and> verified (run cfg st es ! k) \<and> id_u (run cfg st es ! k) = id_u (st ! k)"
proof (induction es arbitrary: st)
  case Nil
  then show ?case by simp
next
  case (Cons e es)
  from step_positions [of st cfg e] Cons.prems
  have "k < length (step cfg st e)" "verified (step cfg st e ! k)"
    "id_u (step cfg st e ! k) = id_u (st ! k)" by auto
  with Cons.IH [of "step cfg st e"] show ?case by simp
qed

text \<open>
  Claim C7. Every event keeps the rows of the table in place with their ids, and a row
  that is verified stays verified. A row that turns from unverified to verified does so
  in a verify request that answers 200. A row the event adds is unverified.
\<close>

theorem verified_monotonic:
  "length st \<le> length (step cfg st e) \<and>
   (\<forall>k<length st. id_u (step cfg st e ! k) = id_u (st ! k) \<and>
                  (verified (st ! k) \<longrightarrow> verified (step cfg st e ! k))) \<and>
   (\<forall>k<length st. \<not> verified (st ! k) \<and> verified (step cfg st e ! k) \<longrightarrow>
        (\<exists>ev tk. e = Verify ev tk \<and> status (response (verify ev st tk)) = 200)) \<and>
   (\<forall>k. length st \<le> k \<and> k < length (step cfg st e) \<longrightarrow> \<not> verified (step cfg st e ! k))"
  by (rule step_positions)

section \<open>A failing notifier\<close>

lemma tokens_update_first_subset:
  "\<forall>x. magicLinkToken (g x) = Some tok \<Longrightarrow>
   set (tokens (update_first wh g st)) \<subseteq> insert tok (set (tokens st))"
proof
  fix t assume g: "\<forall>x. magicLinkToken (g x) = Some tok"
    and "t \<in> set (tokens (update_first wh g st))"
  then obtain x where x: "x \<in> set (update_first wh g st)" "magicLinkToken x = Some t"
    by (auto simp: set_tokens)
  from set_update_first [OF x(1)] x(2) g show "t \<in> insert tok (set (tokens st))"
    by (auto simp: set_tokens)
qed

lemma distinct_tokens_update_first:
  assumes g: "\<forall>x. magicLinkToken (g x) = Some tok"
  shows "distinct (tokens st) \<Longrightarrow> tok \<notin> set (tokens st) \<Longrightarrow>
         distinct (tokens (update_first wh g st))"
proof (induction st)
  case Nil
  then show ?case by simp
next
  case (Cons a as)
  have d: "distinct (tokens as)" and n: "tok \<notin> set (tokens as)"
    using Cons.prems by (auto split: option.splits)
  show ?case
  proof (cases "wh a")
    case True
    with g d n show ?thesis by simp
  next
    case False
    note IH = Cons.IH [OF d n]
    show ?thesis
    proof (cases "magicLinkToken a")
      case None
      with False IH show ?thesis by simp
    next
      case (Some t)
      with Cons.prems have "t \<notin> set (tokens as)" "t \<noteq> tok" by auto
      with tokens_update_first_subset [OF g, of wh as]
      have "t \<notin> set (tokens (update_first wh g as))" by blast
      with False Some IH show ?thesis by simp
    qed
  qed
qed

lemma unique_after_issue:
  assumes "unique_ok st" "issues ev g" "newToken ev \<notin> set (tokens st)"
  shows "unique_ok (update_first wh g st)"
proof -
  from assms(2) have i: "\<And>x. id_u (g x) = id_u x" and e: "\<And>x. email (g x) = email x"
    and t: "\<forall>x. magicLinkToken (g x) = Some (newToken ev)"
    by (simp_all add: issues_def)
  from assms(1) have d: "distinct (map id_u st)" "distinct (map email st)" "distinct (tokens st)"
    by (simp_all add: unique_ok_def)
  have mi: "map id_u (update_first wh g st) = map id_u st" by (rule map_update_first) (rule i)
  have me: "map email (update_first wh g st) = map email st" by (rule map_update_first) (rule e)
  from distinct_tokens_update_first [OF t d(3) assms(3)]
  have "distinct (tokens (update_first wh g st))" .
  with d mi me show ?thesis by (simp add: unique_ok_def)
qed

lemma issue_reaches_notifier:
  assumes "unique_ok st" "\<not> invalid_email (Some (JStr e))" "findUnique_email st e = Some u"
    "gate rt (Some u)" "newToken ev \<notin> set (tokens st)"
  shows "sent (issue cfg ev st rt e) \<noteq> []"
proof (cases rt)
  case (SignupRoute nm)
  let ?g = "\<lambda>x. (issue_data (newToken ev) (newExpiry ev) x)
                 \<lparr>name := or_else nm (name u), updatedAt := now ev\<rparr>"
  from unique_after_issue [OF assms(1) issues_signup assms(5)]
  have "unique_ok (update_first (\<lambda>x. email x = e) ?g st)" .
  with assms(2,3,4) SignupRoute show ?thesis
    by (simp add: issue_def signup_string signup_valid_def gate_def prisma_update_def sendMagicLinkEmail_def Let_def
        findUnique_email_def)
next
  case LoginRoute
  let ?g = "\<lambda>x. (issue_data (newToken ev) (newExpiry ev) x)\<lparr>updatedAt := now ev\<rparr>"
  from unique_after_issue [OF assms(1) issues_login assms(5)]
  have "unique_ok (update_first (\<lambda>x. email x = e) ?g st)" .
  with assms(2,3,4) LoginRoute show ?thesis
    by (simp add: issue_def login_string login_valid_def gate_def prisma_update_def sendMagicLinkEmail_def Let_def
        findUnique_email_def)
next
  case ResendRoute
  let ?g = "\<lambda>x. (issue_data (newToken ev) (newExpiry ev) x)\<lparr>updatedAt := now ev\<rparr>"
  from unique_after_issue [OF assms(1) issues_login assms(5)]
  have "unique_ok (update_first (\<lambda>x. email x = e) ?g st)" .
  with assms(2,3,4) ResendRoute show ?thesis
    by (simp add: issue_def resend_string resend_valid_def gate_def prisma_update_def sendMagicLinkEmail_def Let_def
        findUnique_email_def)
qed

lemma issued_ok_gate_after:
  assumes "issued_ok ev rt e st r"
  shows "\<exists>u'. findUnique_email (store r) e = Some u' \<and> gate rt (Some u') \<and>
              magicLinkToken u' = Some (newToken ev) \<and>
              magicLinkExpires u' = Some (newExpiry ev) \<and> \<not> magicLinkUsed u'"
proof -
  from assms have w: "wrote ev e st (store r)" and gt: "gate rt (findUnique_email st e)"
    by (simp_all add: issued_ok_def)
  from wrote_found [OF w] obtain u' where u':
    "findUnique_email (store r) e = Some u'" "magicLinkToken u' = Some (newToken ev)"
    "magicLinkExpires u' = Some (newExpiry ev)" "\<not> magicLinkUsed u'"
    "case findUnique_email st e of None \<Rightarrow> \<not> verified u'
       | Some u \<Rightarrow> id_u u' = id_u u \<and> verified u' = verified u \<and> createdAt u' = createdAt u"
    by blast
  from gt u'(5) have "gate rt (Some u')"
    by (cases rt; cases "findUnique_email st e") (simp_all add: gate_def)
  with u' show ?thesis by blast
qed

text \<open>
  Claim C9. When an issuing request (signup, login or resend) reaches the transporter and
  the transporter fails, the response is a 500 failure, yet the account of the email
  already holds the new token, its expiry and \<^verbatim>\<open>magicLinkUsed = false\<close>, and the table is
  well formed. A retry of the same route for the same email, drawing a token that no
  row holds, reaches the transporter again and leaves the account with the retry's
  token and expiry; it answers 200 exactly when the transporter now succeeds.
\<close>

theorem notifier_failure_after_persist:
  assumes "wf_store st"
    and "sent (issue cfg ev st rt e) \<noteq> []"
    and "\<not> mailOk ev"
  shows "status (response (issue cfg ev st rt e)) = 500 \<and>
         \<not> success (response (issue cfg ev st rt e)) \<and>
         (\<exists>u. findUnique_email (store (issue cfg ev st rt e)) e = Some u \<and>
              magicLinkToken u = Some (newToken ev) \<and>
              magicLinkExpires u = Some (newExpiry ev) \<and> \<not> magicLinkUsed u) \<and>
         wf_store (store (issue cfg ev st rt e)) \<and>
         (\<forall>ev2. newToken ev2 \<notin> set (tokens (store (issue cfg ev st rt e))) \<longrightarrow>
            sent (issue cfg ev2 (store (issue cfg ev st rt e)) rt e) \<noteq> [] \<and>
            status (response (issue cfg ev2 (store (issue cfg ev st rt e)) rt e)) =
              (if mailOk ev2 then 200 else 500) \<and>
            (\<exists>u2. findUnique_email (store (issue cfg ev2 (store (issue cfg ev st rt e)) rt e)) e
                     = Some u2 \<and>
                  magicLinkToken u2 = Some (newToken ev2) \<and>
                  magicLinkExpires u2 = Some (newExpiry ev2) \<and> \<not> magicLinkUsed u2))"
proof -
  let ?r = "issue cfg ev st rt e"
  from issue_shape [of st cfg ev rt e] assms(2)
  have ok: "issued_ok ev rt e st ?r" by (auto simp: refused_def)
  with assms(3) have A: "status (response ?r) = 500" "\<not> success (response ?r)"
    by (simp_all add: issued_ok_def)
  from ok have w: "wrote ev e st (store ?r)" and v: "\<not> invalid_email (Some (JStr e))"
    by (simp_all add: issued_ok_def)
  from issued_ok_gate_after [OF ok] obtain u' where u':
    "findUnique_email (store ?r) e = Some u'" "gate rt (Some u')"
    "magicLinkToken u' = Some (newToken ev)" "magicLinkExpires u' = Some (newExpiry ev)"
    "\<not> magicLinkUsed u'" by blast
  then have B: "\<exists>u. findUnique_email (store ?r) e = Some u \<and>
      magicLinkToken u = Some (newToken ev) \<and> magicLinkExpires u = Some (newExpiry ev) \<and>
      \<not> magicLinkUsed u" by blast
  from wrote_wf [OF assms(1) v w] have C: "wf_store (store ?r)" .
  then have uo: "unique_ok (store ?r)" by (simp add: wf_store_def)
  have D: "sent (issue cfg ev2 (store ?r) rt e) \<noteq> [] \<and>
      status (response (issue cfg ev2 (store ?r) rt e)) = (if mailOk ev2 then 200 else 500) \<and>
      (\<exists>u2. findUnique_email (store (issue cfg ev2 (store ?r) rt e)) e = Some u2 \<and>
            magicLinkToken u2 = Some (newToken ev2) \<and>
            magicLinkExpires u2 = Some (newExpiry ev2) \<and> \<not> magicLinkUsed u2)"
    if fresh: "newToken ev2 \<notin> set (tokens (store ?r))" for ev2
  proof -
    let ?r2 = "issue cfg ev2 (store ?r) rt e"
    from issue_reaches_notifier [OF uo v u'(1,2) fresh] have s: "sent ?r2 \<noteq> []" .
    with issue_shape [of "store ?r" cfg ev2 rt e]
    have ok2: "issued_ok ev2 rt e (store ?r) ?r2" by (auto simp: refused_def)
    then have "status (response ?r2) = (if mailOk ev2 then 200 else 500)"
      by (simp add: issued_ok_def)
    with s issued_ok_gate_after [OF ok2] show ?thesis by blast
  qed
  from A B C D show ?thesis by blast
qed

section \<open>The email check, filters in the query, and concurrent verification\<close>

lemma signup_response_not_invalid:
  "\<not> invalid_email (Some (JStr e)) \<Longrightarrow> response (signup cfg ev st (Some (JStr e)) nm) \<noteq> invalid_input"
  by (simp add: signup_string signup_valid_def invalid_input_def reply_def Let_def sendMagicLinkEmail_def
      split: option.splits sum.splits prod.splits)

lemma login_response_not_invalid:
  "\<not> invalid_email (Some (JStr e)) \<Longrightarrow> response (login cfg ev st (Some (JStr e))) \<noteq> invalid_input"
  by (simp add: login_string login_valid_def invalid_input_def reply_def Let_def sendMagicLinkEmail_def
      split: option.splits sum.splits prod.splits)

lemma resend_response_not_invalid:
  "\<not> invalid_email (Some (JStr e)) \<Longrightarrow> response (resend cfg ev st (Some (JStr e))) \<noteq> invalid_input"
  by (simp add: resend_string resend_valid_def invalid_input_def reply_def Let_def sendMagicLinkEmail_def
      split: option.splits sum.splits prod.splits)

lemma signup_first_account:
  "\<not> invalid_email (Some (JStr e)) \<Longrightarrow> map email (store (signup cfg ev [] (Some (JStr e)) nm)) = [e]"
  by (simp add: signup_string signup_valid_def findUnique_email_def prisma_create_def unique_ok_def Let_def
      sendMagicLinkEmail_def)

text \<open>
  For an email that is absent or a string the check is "present and contains \<^verbatim>\<open>@\<close>": a
  rejected request gets 400 "Valid email is required" with the table untouched and no
  mail, whatever the table holds; an accepted request never gets that response, and
  signup stores the email as it was sent.
\<close>

lemma absent_email_rejected:
  "invalid_email None \<and>
   signup cfg ev st None nm = \<lparr>store = st, response = invalid_input, sent = []\<rparr> \<and>
   login cfg ev st None = \<lparr>store = st, response = invalid_input, sent = []\<rparr> \<and>
   resend cfg ev st None = \<lparr>store = st, response = invalid_input, sent = []\<rparr>"
  by (simp add: invalid_email_def email_check_def falsy_def signup_def login_def resend_def
      invalid_input_def)

lemma string_email_check:
  "(invalid_email (Some (JStr e)) \<longleftrightarrow> CHR ''@'' \<notin> set e) \<and>
   (invalid_email (Some (JStr e)) \<longrightarrow>
      signup cfg ev st (Some (JStr e)) nm = \<lparr>store = st, response = invalid_input, sent = []\<rparr> \<and>
      login cfg ev st (Some (JStr e)) = \<lparr>store = st, response = invalid_input, sent = []\<rparr> \<and>
      resend cfg ev st (Some (JStr e)) = \<lparr>store = st, response = invalid_input, sent = []\<rparr>) \<and>
   (\<not> invalid_email (Some (JStr e)) \<longrightarrow>
      response (signup cfg ev st (Some (JStr e)) nm) \<noteq> invalid_input \<and>
      response (login cfg ev st (Some (JStr e))) \<noteq> invalid_input \<and>
      response (resend cfg ev st (Some (JStr e))) \<noteq> invalid_input \<and>
      map email (store (signup cfg ev [] (Some (JStr e)) nm)) = [e])"
proof -
  have A: "invalid_email (Some (JStr e)) \<longleftrightarrow> CHR ''@'' \<notin> set e"
    by (auto simp: invalid_email_string)
  have B: "signup cfg ev st (Some (JStr e)) nm = \<lparr>store = st, response = invalid_input, sent = []\<rparr> \<and>
      login cfg ev st (Some (JStr e)) = \<lparr>store = st, response = invalid_input, sent = []\<rparr> \<and>
      resend cfg ev st (Some (JStr e)) = \<lparr>store = st, response = invalid_input, sent = []\<rparr>"
    if "invalid_email (Some (JStr e))"
    using that by (simp add: signup_string login_string resend_string invalid_input_def)
  from A B signup_response_not_invalid [of e cfg ev st nm]
    login_response_not_invalid [of e cfg ev st] resend_response_not_invalid [of e cfg ev st]
    signup_first_account [of e cfg ev nm]
  show ?thesis by auto
qed

text \<open>The requests the check answers with 400, over every JSON value.\<close>

lemma invalid_email_cases:
  "invalid_email em \<longleftrightarrow>
     falsy em \<or> (\<exists>s. em = Some (JStr s) \<and> CHR ''@'' \<notin> set s) \<or>
     (\<exists>xs. em = Some (JArr xs) \<and> JStr ''@'' \<notin> set xs)"
  by (auto simp: invalid_email_def email_check_def falsy_def includes_at_def
      split: option.splits json.splits)

text \<open>A present email that is \<^verbatim>\<open>true\<close>, a number other than zero or an object: the call
  of \<^verbatim>\<open>includes\<close> throws, and the three handlers answer 500 from their \<^verbatim>\<open>catch\<close>.\<close>

lemma email_type_error:
  assumes "v = JBool True \<or> (\<exists>n. v = JNum n \<and> n \<noteq> 0) \<or> (\<exists>kvs. v = JObj kvs)"
  shows "signup cfg ev st (Some v) nm =
           \<lparr>store = st,
            response = reply 500 False ''Failed to create account. Please try again.'' None,
            sent = []\<rparr> \<and>
         login cfg ev st (Some v) =
           \<lparr>store = st,
            response = reply 500 False ''Failed to send login link. Please try again.'' None,
            sent = []\<rparr> \<and>
         resend cfg ev st (Some v) =
           \<lparr>store = st,
            response = reply 500 False ''Failed to send verification link. Please try again.'' None,
            sent = []\<rparr>"
  using assms
  by (auto simp: signup_def login_def resend_def email_check_def falsy_def includes_at_def)

text \<open>
  Claim C10. The claim has every request whose email is absent or lacks \<^verbatim>\<open>@\<close> answered
  400. The body \<^verbatim>\<open>{"email": 42}\<close> carries a present email without \<^verbatim>\<open>@\<close>; it is not
  among the requests the check answers with 400, and signup, login and resend answer it
  500 with their generic failure messages, the table untouched and no mail sent.
\<close>

theorem number_email_answers_500:
  "\<not> invalid_email (Some (JNum 42)) \<and>
   signup cfg ev st (Some (JNum 42)) nm =
     \<lparr>store = st,
      response = reply 500 False ''Failed to create account. Please try again.'' None,
      sent = []\<rparr> \<and>
   login cfg ev st (Some (JNum 42)) =
     \<lparr>store = st,
      response = reply 500 False ''Failed to send login link. Please try again.'' None,
      sent = []\<rparr> \<and>
   resend cfg ev st (Some (JNum 42)) =
     \<lparr>store = st,
      response = reply 500 False ''Failed to send verification link. Please try again.'' None,
      sent = []\<rparr>"
  by (simp add: invalid_email_def signup_def login_def resend_def email_check_def falsy_def
      includes_at_def)

text \<open>
  Claim C1. The claim has \<^verbatim>\<open>verify\<close> succeed at most once for every value a request
  presents. The request \<^verbatim>\<open>GET /api/auth/verify?token[not]=zzz\<close> presents the object
  \<^verbatim>\<open>{ not: 'zzz' }\<close>, which \<^verbatim>\<open>findFirst\<close> takes as a filter. With two accounts holding live
  tokens, the request is answered 200 with a session for the first account, and the same
  request, sent again with nothing issued in between, is answered 200 with a session for
  the second; both accounts end verified, and neither token was presented.
\<close>

theorem filter_request_verifies_twice:
  "status (response (verify (env_at 1000 0 True) [alice, bob]
      (Some (QObj [(''not'', QStr ''zzz'')])))) = 200 \<and>
   map_option userId (auth_token (response (verify (env_at 1000 0 True) [alice, bob]
      (Some (QObj [(''not'', QStr ''zzz'')]))))) = Some ''c1'' \<and>
   status (response (verify (env_at 1001 0 True)
      (store (verify (env_at 1000 0 True) [alice, bob] (Some (QObj [(''not'', QStr ''zzz'')]))))
      (Some (QObj [(''not'', QStr ''zzz'')])))) = 200 \<and>
   map_option userId (auth_token (response (verify (env_at 1001 0 True)
      (store (verify (env_at 1000 0 True) [alice, bob] (Some (QObj [(''not'', QStr ''zzz'')]))))
      (Some (QObj [(''not'', QStr ''zzz'')]))))) = Some ''c3'' \<and>
   map verified (store (verify (env_at 1001 0 True)
      (store (verify (env_at 1000 0 True) [alice, bob] (Some (QObj [(''not'', QStr ''zzz'')]))))
      (Some (QObj [(''not'', QStr ''zzz'')])))) = [True, True]"
  by (simp add: verify_def verify_lookup_def verify_claim_def findFirst_def matching_def
      prisma_update_def unique_ok_def alice_def bob_def env_at_def)

lemma wf_alice_bob: "wf_store [alice, bob]"
  by (simp add: wf_store_def unique_ok_def invalid_email_string alice_def bob_def)

text \<open>
  Claim C2. Two verify requests for the live token \<^verbatim>\<open>T1\<close> are in flight; the database
  serves the \<^verbatim>\<open>findFirst\<close> of the first, the \<^verbatim>\<open>findFirst\<close> of the second, then the two
  updates. Both requests are answered 200: the lookup and the claim are two calls, not
  one atomic operation.
\<close>

theorem concurrent_verify_both_succeed:
  "statuses (snd (schedule [alice]
       [AwaitFind (env_at 1000 0 True) (Some (QStr ''T1'')), AwaitFind (env_at 1001 0 True) (Some (QStr ''T1''))]
       [0, 1, 0, 1])) = [Some 200, Some 200]"
  by (simp add: statuses_def alice_def env_at_def verify_lookup_string verify_claim_def
      findFirst_def live_def prisma_update_def unique_ok_def Let_def)

lemma sequential_verify_one_succeeds:
  "statuses (snd (schedule [alice]
       [AwaitFind (env_at 1000 0 True) (Some (QStr ''T1'')), AwaitFind (env_at 1001 0 True) (Some (QStr ''T1''))]
       [0, 0, 1, 1])) = [Some 200, Some 400]"
  by (simp add: statuses_def alice_def env_at_def verify_lookup_string verify_claim_def
      findFirst_def live_def prisma_update_def unique_ok_def Let_def reply_def)

lemma verify_is_two_steps:
  "advance st (AwaitFind ev tk) = (st1, t1) \<Longrightarrow> advance st1 t1 = (st2, t2) \<Longrightarrow>
   st2 = store (verify ev st tk) \<and> t2 = Answered (response (verify ev st tk))"
  by (auto simp: verify_def split: sum.splits prod.splits)

section \<open>Worked instances\<close>

lemma newToken_not_T1: "newToken ev \<noteq> ''T1''"
  using length_newToken [of ev] by auto

lemma wf_alice: "wf_store [alice]"
  by (simp add: wf_store_def unique_ok_def invalid_email_string alice_def)

lemma verify_alice:
  "verify (env_at 1000 0 True) [alice] (Some (QStr ''T1'')) =
     \<lparr>store = [claim_data (env_at 1000 0 True) alice],
      response = \<lparr>status = 200, success = True,
         message = ''Successfully authenticated! Welcome back!'',
         data = Some (Profile ''c1'' ''a@x.com'' (Some ''A'') True),
         auth_token = Some \<lparr>userId = ''c1'', jwt_email = ''a@x.com'', jwt_verified = True\<rparr>\<rparr>,
      sent = []\<rparr>"
  by (simp add: verify_def verify_lookup_string verify_claim_def findFirst_def live_def
      prisma_update_def unique_ok_def claim_data_def alice_def env_at_def)

lemma string_token_verifies_at_most_once_instance:
  "unique_ok [alice] \<and>
   status (response (verify (env_at 1000 0 True) [alice] (Some (QStr ''T1'')))) = 200 \<and>
   list_all (\<lambda>e. drawn e \<noteq> Some ''T1'')
     [Login (env_at 2000 1 True) (Some (JStr ''a@x.com'')), Verify (env_at 3000 0 True) (Some (QStr ''T1'')),
      Cleanup (env_at 4000 0 True)] \<and>
   response (verify (env_at 5000 0 True)
     (run cfg0 (store (verify (env_at 1000 0 True) [alice] (Some (QStr ''T1''))))
        [Login (env_at 2000 1 True) (Some (JStr ''a@x.com'')), Verify (env_at 3000 0 True) (Some (QStr ''T1'')),
         Cleanup (env_at 4000 0 True)])
     (Some (QStr ''T1''))) = invalid_link"
proof -
  let ?es = "[Login (env_at 2000 1 True) (Some (JStr ''a@x.com'')), Verify (env_at 3000 0 True) (Some (QStr ''T1'')),
      Cleanup (env_at 4000 0 True)]"
  have u: "unique_ok [alice]" by (simp add: unique_ok_def alice_def)
  have s: "status (response (verify (env_at 1000 0 True) [alice] (Some (QStr ''T1'')))) = 200"
    by (simp add: verify_alice)
  have d: "\<forall>e \<in> set ?es. drawn e \<noteq> Some ''T1''" by (simp add: newToken_not_T1)
  from string_token_verifies_at_most_once [OF u s d, of "env_at 5000 0 True" cfg0] u s d
  show ?thesis by (simp add: newToken_not_T1)
qed


theorem expired_token_never_verifies_witness:
  "wf_store [alice] \<and> alice \<in> set [alice] \<and> magicLinkToken alice = Some ''T1'' \<and>
   magicLinkExpires alice = Some 900000 \<and> 900000 \<le> now (env_at 900000 0 True) \<and>
   verify (env_at 900000 0 True) [alice] (Some (QStr ''T1'')) =
     \<lparr>store = [alice], response = invalid_link, sent = []\<rparr>"
proof -
  have m: "alice \<in> set [alice]" by simp
  have t: "magicLinkToken alice = Some ''T1''" by (simp add: alice_def)
  have x: "magicLinkExpires alice = Some 900000" by (simp add: alice_def)
  have l: "900000 \<le> now (env_at 900000 0 True)" by (simp add: env_at_def)
  from expired_token_never_verifies [OF wf_alice m t x l] wf_alice m t x l
  show ?thesis by simp
qed

theorem signup_verified_conflict_witness:
  "wf_store [alice\<lparr>verified := True\<rparr>] \<and>
   findUnique_email [alice\<lparr>verified := True\<rparr>] ''a@x.com'' = Some (alice\<lparr>verified := True\<rparr>) \<and>
   verified (alice\<lparr>verified := True\<rparr>) \<and>
   signup cfg0 (env_at 2000 7 True) [alice\<lparr>verified := True\<rparr>] (Some (JStr ''a@x.com'')) (Some ''B'') =
     \<lparr>store = [alice\<lparr>verified := True\<rparr>],
      response = reply 409 False ''Account already exists and verified'' None, sent = []\<rparr>"
proof -
  have w: "wf_store [alice\<lparr>verified := True\<rparr>]"
    by (simp add: wf_store_def unique_ok_def invalid_email_string alice_def)
  have f: "findUnique_email [alice\<lparr>verified := True\<rparr>] ''a@x.com'' = Some (alice\<lparr>verified := True\<rparr>)"
    by (simp add: findUnique_email_def alice_def)
  have v: "verified (alice\<lparr>verified := True\<rparr>)" by simp
  from signup_verified_conflict [OF w f v, of cfg0 "env_at 2000 7 True" "Some ''B''"] w f v
  show ?thesis by simp
qed

theorem login_notfound_indistinguishable_witness:
  "wf_store [alice] \<and> \<not> invalid_email (Some (JStr ''nobody@x.com'')) \<and>
   findUnique_email [alice] ''nobody@x.com'' = None \<and>
   findUnique_email [alice] ''a@x.com'' = Some alice \<and> \<not> verified alice \<and>
   login cfg0 (env_at 2000 7 True) [alice] (Some (JStr ''nobody@x.com'')) =
     login cfg0 (env_at 2000 7 True) [alice] (Some (JStr ''a@x.com''))"
proof -
  have i: "\<not> invalid_email (Some (JStr ''nobody@x.com''))" by (simp add: invalid_email_string)
  have n: "findUnique_email [alice] ''nobody@x.com'' = None"
    by (simp add: findUnique_email_def alice_def)
  have f: "findUnique_email [alice] ''a@x.com'' = Some alice"
    by (simp add: findUnique_email_def alice_def)
  have v: "\<not> verified alice" by (simp add: alice_def)
  from login_notfound_indistinguishable [OF wf_alice i n f v, of cfg0 "env_at 2000 7 True" "env_at 2000 7 True"]
    wf_alice i n f v
  show ?thesis by simp
qed

theorem verified_monotonic_witness:
  "verified ([alice\<lparr>verified := True\<rparr>] ! 0) \<and>
   verified (step cfg0 [alice\<lparr>verified := True\<rparr>] (Login (env_at 2000 7 True) (Some (JStr ''a@x.com''))) ! 0) \<and>
   id_u (step cfg0 [alice\<lparr>verified := True\<rparr>] (Login (env_at 2000 7 True) (Some (JStr ''a@x.com''))) ! 0) = ''c1'' \<and>
   \<not> verified ([alice] ! 0) \<and>
   verified (step cfg0 [alice] (Verify (env_at 1000 0 True) (Some (QStr ''T1''))) ! 0) \<and>
   (\<exists>ev tk. Verify (env_at 1000 0 True) (Some (QStr ''T1'')) = Verify ev tk \<and>
            status (response (verify ev [alice] tk)) = 200)"
proof -
  let ?st = "[alice\<lparr>verified := True\<rparr>]"
  let ?e = "Login (env_at 2000 7 True) (Some (JStr ''a@x.com''))"
  let ?v = "Verify (env_at 1000 0 True) (Some (QStr ''T1''))"
  from verified_monotonic [of ?st cfg0 ?e]
  have "\<forall>k<length ?st. id_u (step cfg0 ?st ?e ! k) = id_u (?st ! k) \<and>
          (verified (?st ! k) \<longrightarrow> verified (step cfg0 ?st ?e ! k))" by blast
  then have A: "verified (step cfg0 ?st ?e ! 0)" "id_u (step cfg0 ?st ?e ! 0) = ''c1''"
    by (simp_all add: alice_def)
  have B: "\<not> verified ([alice] ! 0)" by (simp add: alice_def)
  have C: "verified (step cfg0 [alice] ?v ! 0)" by (simp add: verify_alice claim_data_def)
  from verified_monotonic [of "[alice]" cfg0 ?v]
  have "\<forall>k<length [alice]. \<not> verified ([alice] ! k) \<and> verified (step cfg0 [alice] ?v ! k) \<longrightarrow>
          (\<exists>ev tk. ?v = Verify ev tk \<and> status (response (verify ev [alice] tk)) = 200)" by blast
  with B C have D: "\<exists>ev tk. ?v = Verify ev tk \<and> status (response (verify ev [alice] tk)) = 200"
    by simp
  from A B C D show ?thesis by simp
qed

theorem cleanup_frame_witness:
  "magicLinkExpires ([alice] ! 0) = Some 900000 \<and> 900000 < now (env_at 900001 0 True) \<and>
   magicLinkToken ([alice] ! 0) = Some ''T1'' \<and>
   magicLinkToken (fst (cleanupExpiredTokens (env_at 900001 0 True) [alice]) ! 0) = None \<and>
   magicLinkExpires (fst (cleanupExpiredTokens (env_at 900001 0 True) [alice]) ! 0) = None \<and>
   magicLinkUsed (fst (cleanupExpiredTokens (env_at 900001 0 True) [alice]) ! 0) = False \<and>
   verified (fst (cleanupExpiredTokens (env_at 900001 0 True) [alice]) ! 0) = False \<and>
   fst (cleanupExpiredTokens (env_at 900000 0 True) [alice]) ! 0 = alice"
proof -
  have h: "\<exists>ex t. magicLinkExpires ([alice] ! 0) = Some ex \<and> ex < now (env_at 900001 0 True) \<and>
      magicLinkToken ([alice] ! 0) = Some t"
    by (simp add: alice_def env_at_def)
  have n: "\<not> (\<exists>ex t. magicLinkExpires ([alice] ! 0) = Some ex \<and> ex < now (env_at 900000 0 True) \<and>
      magicLinkToken ([alice] ! 0) = Some t)"
    by (simp add: alice_def env_at_def)
  from cleanup_frame [of "env_at 900001 0 True" "[alice]"] h
  have A: "magicLinkToken (fst (cleanupExpiredTokens (env_at 900001 0 True) [alice]) ! 0) = None \<and>
   magicLinkExpires (fst (cleanupExpiredTokens (env_at 900001 0 True) [alice]) ! 0) = None \<and>
   magicLinkUsed (fst (cleanupExpiredTokens (env_at 900001 0 True) [alice]) ! 0) = False \<and>
   verified (fst (cleanupExpiredTokens (env_at 900001 0 True) [alice]) ! 0) = verified ([alice] ! 0)"
    by simp
  from cleanup_frame [of "env_at 900000 0 True" "[alice]"] n
  have B: "fst (cleanupExpiredTokens (env_at 900000 0 True) [alice]) ! 0 = alice" by simp
  from A B show ?thesis by (simp add: alice_def env_at_def)
qed

theorem notifier_failure_after_persist_witness:
  "wf_store [alice] \<and>
   sent (issue cfg0 (env_at 2000 7 False) [alice] ResendRoute ''a@x.com'') \<noteq> [] \<and>
   \<not> mailOk (env_at 2000 7 False) \<and>
   status (response (issue cfg0 (env_at 2000 7 False) [alice] ResendRoute ''a@x.com'')) = 500 \<and>
   wf_store (store (issue cfg0 (env_at 2000 7 False) [alice] ResendRoute ''a@x.com''))"
proof -
  have s: "sent (issue cfg0 (env_at 2000 7 False) [alice] ResendRoute ''a@x.com'') \<noteq> []"
    by (simp add: issue_def resend_string resend_valid_def invalid_email_string findUnique_email_def prisma_update_def
        unique_ok_def issue_data_def sendMagicLinkEmail_def Let_def alice_def env_at_def)
  have m: "\<not> mailOk (env_at 2000 7 False)" by (simp add: env_at_def)
  from notifier_failure_after_persist [OF wf_alice s m] wf_alice s m
  show ?thesis by simp
qed

lemma string_email_check_instance:
  "invalid_email (Some (JStr ''bob'')) \<and>
   signup cfg0 (env_at 2000 7 True) [alice] (Some (JStr ''bob'')) None =
     \<lparr>store = [alice], response = invalid_input, sent = []\<rparr> \<and>
   \<not> invalid_email (Some (JStr ''b@'')) \<and>
   response (resend cfg0 (env_at 2000 7 True) [alice] (Some (JStr ''b@''))) \<noteq> invalid_input \<and>
   map email (store (signup cfg0 (env_at 2000 7 True) [] (Some (JStr ''b@'')) None)) = [''b@'']"
proof -
  have i: "invalid_email (Some (JStr ''bob''))" by (simp add: invalid_email_string)
  have v: "\<not> invalid_email (Some (JStr ''b@''))" by (simp add: invalid_email_string)
  from string_email_check [of "''bob''" cfg0 "env_at 2000 7 True" "[alice]" None] i
  have A: "signup cfg0 (env_at 2000 7 True) [alice] (Some (JStr ''bob'')) None =
     \<lparr>store = [alice], response = invalid_input, sent = []\<rparr>" by blast
  from string_email_check [of "''b@''" cfg0 "env_at 2000 7 True" "[alice]" None] v
  have B: "response (resend cfg0 (env_at 2000 7 True) [alice] (Some (JStr ''b@''))) \<noteq> invalid_input"
    and C: "map email (store (signup cfg0 (env_at 2000 7 True) [] (Some (JStr ''b@'')) None)) = [''b@'']"
    by blast+
  from i v A B C show ?thesis by simp
qed

end
